theory Spec2Isabelle
  imports Complex_Main
begin

section \<open>The environment: clock, effects, exceptions\<close>

text \<open>
  A Python \<open>str\<close> is a sequence of Unicode code points; \<open>str\<close> turns an ASCII literal
  into one.
\<close>

type_synonym pystr = "nat list"

definition str :: "string \<Rightarrow> pystr" where
  "str s = map of_char s"

text \<open>
  The exceptions the program can meet. \<open>Exception msg\<close> stands for any other exception
  class below \<open>Exception\<close>, with \<open>msg\<close> its \<open>str(e)\<close>.
\<close>

datatype exn =
    IndexError
  | BlockedPromptException pystr
  | JSONDecodeError
  | UnicodeDecodeError
  | Exception pystr

datatype 'a result = Returned 'a | Raised exn

text \<open>
  The \<open>error\<close> entry of a failed upload: the literal \<open>"Invalid JSON format"\<close>, or
  \<open>str(e)\<close> of the exception caught.
\<close>

datatype upload_error = Invalid_JSON_format | Str_of exn

text \<open>
  The texts the program shows through \<open>st.warning\<close>, \<open>st.error\<close> and \<open>st.success\<close>,
  one constructor per f-string of the source, with the interpolated values as arguments.
\<close>

datatype message =
    Rate_limit_reached real
  | Prompt_blocked pystr
  | Could_not_parse
  | Error_generating exn
  | Files_uploaded nat
  | Files_failed nat
  | File_error pystr upload_error
  | Please_enter_prompt

text \<open>
  The effects of the program in the order in which it performs them. \<open>Time_read t\<close> is a
  call of \<open>time.time()\<close> that returned \<open>t\<close>, \<open>Sleep d\<close> a call of \<open>time.sleep(d)\<close>,
  \<open>Popleft\<close> and \<open>Append\<close> the two mutations of the deque \<open>request_times\<close>,
  \<open>Generate_content p\<close> the outbound call \<open>model.generate_content(p)\<close>.
\<close>

datatype event =
    Time_read real
  | Lock_acquire
  | Lock_release
  | Popleft real
  | Append real
  | Sleep real
  | St_warning message
  | St_error message
  | St_success message
  | Generate_content pystr

record env =
  clock :: real
  trace :: "event list"

definition emit :: "event list \<Rightarrow> 'e env_scheme \<Rightarrow> 'e env_scheme" where
  "emit es w = w\<lparr>trace := trace w @ es\<rparr>"

text \<open>\<open>time.sleep(d)\<close> returns once \<open>d\<close> seconds have passed.\<close>

definition sleep :: "real \<Rightarrow> 'e env_scheme \<Rightarrow> 'e env_scheme" where
  "sleep d w = emit [Sleep d] (w\<lparr>clock := clock w + d\<rparr>)"

text \<open>Time that passes outside the program, between two calls.\<close>

definition advance :: "real \<Rightarrow> 'e env_scheme \<Rightarrow> 'e env_scheme" where
  "advance d w = w\<lparr>clock := clock w + d\<rparr>"

definition events_since :: "'e env_scheme \<Rightarrow> 'e env_scheme \<Rightarrow> event list" where
  "events_since w w' = drop (length (trace w)) (trace w')"

section \<open>RateLimiter\<close>

record RateLimiter =
  max_requests :: int
  time_frame :: real
  request_times :: "real list"

definition RateLimiter_init :: "int \<Rightarrow> real \<Rightarrow> RateLimiter" where
  "RateLimiter_init mr tf = \<lparr>max_requests = mr, time_frame = tf, request_times = []\<rparr>"

text \<open>
  The eviction loop of \<open>wait\<close>:
  \<^verbatim>\<open>while self.request_times and current_time - self.request_times[0] > self.time_frame:
      self.request_times.popleft()\<close>
  It returns the entries popped and the entries kept.
\<close>

fun popleft_while :: "real \<Rightarrow> real \<Rightarrow> real list \<Rightarrow> real list \<times> real list" where
  "popleft_while current_time tf [] = ([], [])"
| "popleft_while current_time tf (t # ts) =
     (if current_time - t > tf
      then (let (popped, kept) = popleft_while current_time tf ts in (t # popped, kept))
      else ([], t # ts))"

text \<open>
  \<open>RateLimiter.wait\<close>. The clock is read once, before the lock is taken. The whole body
  runs inside \<open>with self._lock\<close>, the sleep included. \<open>self.request_times[0]\<close> raises
  \<open>IndexError\<close> on an empty deque, which leaves the \<open>with\<close> block and releases the lock.
\<close>

definition wait :: "RateLimiter \<Rightarrow> 'e env_scheme \<Rightarrow> unit result \<times> RateLimiter \<times> 'e env_scheme" where
  "wait self w =
     (let current_time = clock w;
          w1 = emit [Time_read current_time, Lock_acquire] w;
          (popped, kept) = popleft_while current_time (time_frame self) (request_times self);
          w2 = emit (map Popleft popped) w1
      in if int (length kept) \<ge> max_requests self
         then (case kept of
                 [] \<Rightarrow> (Raised IndexError, self\<lparr>request_times := kept\<rparr>, emit [Lock_release] w2)
               | oldest_request # _ \<Rightarrow>
                   (let wait_time = time_frame self - (current_time - oldest_request);
                        w3 = (if wait_time > 0
                              then sleep wait_time (emit [St_warning (Rate_limit_reached wait_time)] w2)
                              else w2)
                    in (Returned (), self\<lparr>request_times := kept @ [current_time]\<rparr>,
                        emit [Append current_time, Lock_release] w3)))
         else (Returned (), self\<lparr>request_times := kept @ [current_time]\<rparr>,
               emit [Append current_time, Lock_release] w2))"

text \<open>
  A sequence of calls of \<open>wait\<close> on one limiter by one caller: before each call the clock
  advances by the given delay. The result lists the instants at which the calls returned.
\<close>

fun wait_calls :: "real list \<Rightarrow> RateLimiter \<Rightarrow> env \<Rightarrow> real list \<times> RateLimiter \<times> env" where
  "wait_calls [] self w = ([], self, w)"
| "wait_calls (d # ds) self w =
     (case wait self (advance d w) of
        (_, self', w') \<Rightarrow>
          (case wait_calls ds self' w' of
             (rs, self'', w'') \<Rightarrow> (clock w' # rs, self'', w'')))"

definition env0 :: env where
  "env0 = \<lparr>clock = 0, trace = []\<rparr>"

text \<open>The number of instants in \<open>ts\<close> that fall into the window \<open>[start, start + width)\<close>.\<close>

definition count_in_window :: "real \<Rightarrow> real \<Rightarrow> real list \<Rightarrow> nat" where
  "count_in_window start width ts = length (filter (\<lambda>t. start \<le> t \<and> t < start + width) ts)"

text \<open>The arguments of the \<open>time.sleep\<close> calls in a trace.\<close>

fun sleeps :: "event list \<Rightarrow> real list" where
  "sleeps [] = []"
| "sleeps (Sleep d # es) = d # sleeps es"
| "sleeps (_ # es) = sleeps es"

text \<open>
  Two properties of a trace. \<open>sleeps_unlocked held es\<close>: no \<open>Sleep\<close> happens while the
  lock is held (\<open>held\<close> is the state of the lock before \<open>es\<close>). \<open>revalidates slept es\<close>:
  every \<open>Append\<close> that follows a \<open>Sleep\<close> is separated from it by a fresh clock read
  (\<open>slept\<close>: a sleep has happened since the last clock read).
\<close>

fun sleeps_unlocked :: "bool \<Rightarrow> event list \<Rightarrow> bool" where
  "sleeps_unlocked held [] = True"
| "sleeps_unlocked held (Lock_acquire # es) = sleeps_unlocked True es"
| "sleeps_unlocked held (Lock_release # es) = sleeps_unlocked False es"
| "sleeps_unlocked held (Sleep d # es) = (\<not> held \<and> sleeps_unlocked held es)"
| "sleeps_unlocked held (_ # es) = sleeps_unlocked held es"

fun revalidates :: "bool \<Rightarrow> event list \<Rightarrow> bool" where
  "revalidates slept [] = True"
| "revalidates slept (Sleep d # es) = revalidates True es"
| "revalidates slept (Time_read t # es) = revalidates False es"
| "revalidates slept (Append t # es) = (\<not> slept \<and> revalidates slept es)"
| "revalidates slept (_ # es) = revalidates slept es"


section \<open>JSON documents\<close>

datatype 'f pyfloat = Finite 'f | PosInf | NegInf | NaN

datatype 'f json =
    JNull
  | JBool bool
  | JInt int
  | JFloat "'f pyfloat"
  | JStr pystr
  | JList "'f json list"
  | JDict "(pystr \<times> 'f json) list"

definition is_ws :: "nat \<Rightarrow> bool" where
  "is_ws c = (c = 0x20 \<or> c = 0x09 \<or> c = 0x0A \<or> c = 0x0D)"

definition skip_ws :: "pystr \<Rightarrow> pystr" where
  "skip_ws s = dropWhile is_ws s"

definition is_digit :: "nat \<Rightarrow> bool" where
  "is_digit c = (0x30 \<le> c \<and> c \<le> 0x39)"

definition hex_value :: "nat \<Rightarrow> nat option" where
  "hex_value c =
     (if 0x30 \<le> c \<and> c \<le> 0x39 then Some (c - 0x30)
      else if 0x61 \<le> c \<and> c \<le> 0x66 then Some (c - 0x61 + 10)
      else if 0x41 \<le> c \<and> c \<le> 0x46 then Some (c - 0x41 + 10)
      else None)"

definition decode_uXXXX :: "pystr \<Rightarrow> nat option" where
  "decode_uXXXX s =
     (case take 4 s of
        [a, b, c, d] \<Rightarrow>
          (case (hex_value a, hex_value b, hex_value c, hex_value d) of
             (Some x, Some y, Some z, Some w) \<Rightarrow> Some (((x * 16 + y) * 16 + z) * 16 + w)
           | _ \<Rightarrow> None)
      | _ \<Rightarrow> None)"

definition BACKSLASH :: "nat \<Rightarrow> nat option" where
  "BACKSLASH esc =
     (if esc = 0x22 then Some 0x22
      else if esc = 0x5C then Some 0x5C
      else if esc = 0x2F then Some 0x2F
      else if esc = 0x62 then Some 0x08
      else if esc = 0x66 then Some 0x0C
      else if esc = 0x6E then Some 0x0A
      else if esc = 0x72 then Some 0x0D
      else if esc = 0x74 then Some 0x09
      else None)"

definition with_char :: "nat \<Rightarrow> (pystr \<times> pystr) option \<Rightarrow> (pystr \<times> pystr) option" where
  "with_char c r = (case r of None \<Rightarrow> None | Some (chunks, rest) \<Rightarrow> Some (c # chunks, rest))"

fun scanstring :: "pystr \<Rightarrow> (pystr \<times> pystr) option" where
  "scanstring [] = None"
| "scanstring (c # cs) =
     (if c = 0x22 then Some ([], cs)
      else if c = 0x5C then
        (case cs of
           [] \<Rightarrow> None
         | esc # cs1 \<Rightarrow>
             if esc \<noteq> 0x75 then
               (case BACKSLASH esc of
                  None \<Rightarrow> None
                | Some char \<Rightarrow> with_char char (scanstring cs1))
             else
               (case decode_uXXXX cs1 of
                  None \<Rightarrow> None
                | Some uni \<Rightarrow>
                    if 0xD800 \<le> uni \<and> uni \<le> 0xDBFF \<and> take 2 (drop 4 cs1) = [0x5C, 0x75] then
                      (case decode_uXXXX (drop 6 cs1) of
                         None \<Rightarrow> None
                       | Some uni2 \<Rightarrow>
                           if 0xDC00 \<le> uni2 \<and> uni2 \<le> 0xDFFF
                           then with_char (0x10000 + ((uni - 0xD800) * 0x400 + (uni2 - 0xDC00)))
                                  (scanstring (drop 10 cs1))
                           else with_char uni (scanstring (drop 4 cs1)))
                    else with_char uni (scanstring (drop 4 cs1))))
      else if c < 0x20 then None
      else with_char c (scanstring cs))"

definition match_integer :: "pystr \<Rightarrow> (pystr \<times> pystr) option" where
  "match_integer s =
     (let (sign, s1) = (case s of [] \<Rightarrow> ([], s) | c # r \<Rightarrow> if c = 0x2D then ([c], r) else ([], s))
      in case s1 of
           [] \<Rightarrow> None
         | d # r \<Rightarrow>
             if d = 0x30 then Some (sign @ [d], r)
             else if 0x31 \<le> d \<and> d \<le> 0x39
             then Some (sign @ d # takeWhile is_digit r, dropWhile is_digit r)
             else None)"

definition match_frac :: "pystr \<Rightarrow> pystr \<times> pystr" where
  "match_frac s =
     (case s of
        [] \<Rightarrow> ([], s)
      | c # r \<Rightarrow>
          if c = 0x2E \<and> takeWhile is_digit r \<noteq> []
          then (c # takeWhile is_digit r, dropWhile is_digit r)
          else ([], s))"

definition match_exp :: "pystr \<Rightarrow> pystr \<times> pystr" where
  "match_exp s =
     (case s of
        [] \<Rightarrow> ([], s)
      | e # r \<Rightarrow>
          if e = 0x65 \<or> e = 0x45 then
            (let (sign, r1) = (case r of [] \<Rightarrow> ([], r)
                               | c # r' \<Rightarrow> if c = 0x2D \<or> c = 0x2B then ([c], r') else ([], r))
             in if takeWhile is_digit r1 \<noteq> []
                then (e # sign @ takeWhile is_digit r1, dropWhile is_digit r1)
                else ([], s))
          else ([], s))"

definition match_number :: "pystr \<Rightarrow> ((pystr \<times> pystr \<times> pystr) \<times> pystr) option" where
  "match_number s =
     (case match_integer s of
        None \<Rightarrow> None
      | Some (integer, r) \<Rightarrow>
          (case match_frac r of
             (fraction, r1) \<Rightarrow>
               (case match_exp r1 of
                  (expo, r2) \<Rightarrow> Some ((integer, fraction, expo), r2))))"

definition nat_of_digits :: "pystr \<Rightarrow> nat" where
  "nat_of_digits ds = foldl (\<lambda>a d. 10 * a + (d - 0x30)) 0 ds"

definition parse_int :: "pystr \<Rightarrow> int" where
  "parse_int s =
     (case s of
        [] \<Rightarrow> 0
      | c # r \<Rightarrow> if c = 0x2D then - int (nat_of_digits r) else int (nat_of_digits s))"


definition dict_set :: "(pystr \<times> 'v) list \<Rightarrow> pystr \<Rightarrow> 'v \<Rightarrow> (pystr \<times> 'v) list" where
  "dict_set d k v =
     (if k \<in> fst ` set d then map (\<lambda>(k', v'). if k' = k then (k', v) else (k', v')) d
      else d @ [(k, v)])"

definition dict :: "(pystr \<times> 'v) list \<Rightarrow> (pystr \<times> 'v) list" where
  "dict pairs = foldl (\<lambda>d (k, v). dict_set d k v) [] pairs"

function scan_once :: "(pystr \<Rightarrow> 'f pyfloat) \<Rightarrow> pystr \<Rightarrow> ('f json \<times> pystr) option"
  and JSONObject :: "(pystr \<Rightarrow> 'f pyfloat) \<Rightarrow> pystr \<Rightarrow> ('f json \<times> pystr) option"
  and object_pairs :: "(pystr \<Rightarrow> 'f pyfloat) \<Rightarrow> pystr \<Rightarrow> ((pystr \<times> 'f json) list \<times> pystr) option"
  and JSONArray :: "(pystr \<Rightarrow> 'f pyfloat) \<Rightarrow> pystr \<Rightarrow> ('f json \<times> pystr) option"
  and array_values :: "(pystr \<Rightarrow> 'f pyfloat) \<Rightarrow> pystr \<Rightarrow> ('f json list \<times> pystr) option"
where
  "scan_once parse_float s =
     (case s of
        [] \<Rightarrow> None
      | nextchar # rest \<Rightarrow>
          if nextchar = 0x22 then
            (case scanstring rest of None \<Rightarrow> None | Some (x, r) \<Rightarrow> Some (JStr x, r))
          else if nextchar = 0x7B then JSONObject parse_float rest
          else if nextchar = 0x5B then JSONArray parse_float rest
          else if nextchar = 0x6E \<and> take 4 s = str ''null'' then Some (JNull, drop 4 s)
          else if nextchar = 0x74 \<and> take 4 s = str ''true'' then Some (JBool True, drop 4 s)
          else if nextchar = 0x66 \<and> take 5 s = str ''false'' then Some (JBool False, drop 5 s)
          else
            (case match_number s of
               Some ((integer, fraction, expo), r) \<Rightarrow>
                 if fraction \<noteq> [] \<or> expo \<noteq> []
                 then Some (JFloat (parse_float (integer @ fraction @ expo)), r)
                 else Some (JInt (parse_int integer), r)
             | None \<Rightarrow>
                 if nextchar = 0x4E \<and> take 3 s = str ''NaN'' then Some (JFloat NaN, drop 3 s)
                 else if nextchar = 0x49 \<and> take 8 s = str ''Infinity''
                 then Some (JFloat PosInf, drop 8 s)
                 else if nextchar = 0x2D \<and> take 9 s = str ''-Infinity''
                 then Some (JFloat NegInf, drop 9 s)
                 else None))"
| "JSONObject parse_float s =
     (case skip_ws s of
        [] \<Rightarrow> None
      | nextchar # rest \<Rightarrow>
          if nextchar = 0x7D then Some (JDict [], rest)
          else if nextchar = 0x22 then
            (case object_pairs parse_float rest of
               None \<Rightarrow> None
             | Some (pairs, r) \<Rightarrow> Some (JDict (dict pairs), r))
          else None)"
| "object_pairs parse_float s =
     (case scanstring s of
        None \<Rightarrow> None
      | Some (key, r) \<Rightarrow>
          (case skip_ws r of
             [] \<Rightarrow> None
           | colon # r1 \<Rightarrow>
               if colon \<noteq> 0x3A then None
               else
                 (case scan_once parse_float (skip_ws r1) of
                    None \<Rightarrow> None
                  | Some (val, r2) \<Rightarrow>
                      (case skip_ws r2 of
                         [] \<Rightarrow> None
                       | nextchar # r3 \<Rightarrow>
                           if nextchar = 0x7D then Some ([(key, val)], r3)
                           else if nextchar \<noteq> 0x2C then None
                           else
                             (case skip_ws r3 of
                                [] \<Rightarrow> None
                              | quote # r4 \<Rightarrow>
                                  if quote \<noteq> 0x22 then None
                                  else
                                    (case object_pairs parse_float r4 of
                                       None \<Rightarrow> None
                                     | Some (pairs, r5) \<Rightarrow> Some ((key, val) # pairs, r5)))))))"
| "JSONArray parse_float s =
     (case skip_ws s of
        [] \<Rightarrow> None
      | nextchar # rest \<Rightarrow>
          if nextchar = 0x5D then Some (JList [], rest)
          else
            (case array_values parse_float (nextchar # rest) of
               None \<Rightarrow> None
             | Some (vals, r) \<Rightarrow> Some (JList vals, r)))"
| "array_values parse_float s =
     (case scan_once parse_float s of
        None \<Rightarrow> None
      | Some (val, r) \<Rightarrow>
          (case skip_ws r of
             [] \<Rightarrow> None
           | nextchar # r1 \<Rightarrow>
               if nextchar = 0x5D then Some ([val], r1)
               else if nextchar \<noteq> 0x2C then None
               else
                 (case array_values parse_float (skip_ws r1) of
                    None \<Rightarrow> None
                  | Some (vals, r2) \<Rightarrow> Some (val # vals, r2))))"
  by pat_completeness auto

lemma skip_ws_length: "length (skip_ws s) \<le> length s"
  by (simp add: skip_ws_def length_dropWhile_le)

lemma with_char_Some:
  "with_char c r = Some (x, rest) \<Longrightarrow> \<exists>y. r = Some (y, rest) \<and> x = c # y"
  by (auto simp: with_char_def split: option.splits)

lemma scanstring_length: "scanstring s = Some (x, r) \<Longrightarrow> length r < length s"
proof (induction s arbitrary: x r rule: length_induct)
  case (1 s)
  show ?case
  proof (cases s)
    case Nil
    with "1.prems" show ?thesis by simp
  next
    case (Cons c cs)
    have IH: "\<And>ys y r'. scanstring ys = Some (y, r') \<Longrightarrow> length ys \<le> length cs \<Longrightarrow>
                 length r' < length ys"
      using "1.IH" Cons by (metis le_imp_less_Suc length_Cons)
    show ?thesis
      using "1.prems" unfolding Cons
      by (auto simp del: scanstring.simps simp add: scanstring.simps(2) [of c cs]
          split: if_splits list.splits option.splits
          dest!: with_char_Some IH)
  qed
qed

lemma skip_ws_Cons_length: "skip_ws s = c # r \<Longrightarrow> length r < length s"
  using skip_ws_length [of s] by simp

lemma match_integer_length: "match_integer s = Some (i, r) \<Longrightarrow> length r < length s"
  by (auto simp: match_integer_def Let_def split: list.splits if_splits
      intro: le_imp_less_Suc length_dropWhile_le less_SucI)

lemma match_frac_length: "match_frac s = (f, r) \<Longrightarrow> length r \<le> length s"
  by (auto simp: match_frac_def split: list.splits if_splits
      intro: length_dropWhile_le le_SucI)

lemma match_exp_length: "match_exp s = (e, r) \<Longrightarrow> length r \<le> length s"
  by (auto simp: match_exp_def Let_def split: list.splits if_splits
      intro: length_dropWhile_le le_SucI)

lemma match_number_length: "match_number s = Some (tok, r) \<Longrightarrow> length r < length s"
  by (auto simp: match_number_def split: option.splits prod.splits
      dest!: match_integer_length match_frac_length match_exp_length)

lemma scan_length_dom:
  "scan_once_JSONObject_object_pairs_JSONArray_array_values_dom (Inl (Inl (pf, s))) \<Longrightarrow>
     scan_once pf s = Some (v, r) \<Longrightarrow> length r < length s"
  "scan_once_JSONObject_object_pairs_JSONArray_array_values_dom (Inl (Inr (pf, s))) \<Longrightarrow>
     JSONObject pf s = Some (v, r) \<Longrightarrow> length r < length s"
  "scan_once_JSONObject_object_pairs_JSONArray_array_values_dom (Inr (Inl (pf, s))) \<Longrightarrow>
     object_pairs pf s = Some (ps, r) \<Longrightarrow> length r < length s"
  "scan_once_JSONObject_object_pairs_JSONArray_array_values_dom (Inr (Inr (Inl (pf, s)))) \<Longrightarrow>
     JSONArray pf s = Some (v, r) \<Longrightarrow> length r < length s"
  "scan_once_JSONObject_object_pairs_JSONArray_array_values_dom (Inr (Inr (Inr (pf, s)))) \<Longrightarrow>
     array_values pf s = Some (vs, r) \<Longrightarrow> length r < length s"
proof (induct pf s and pf s and pf s and pf s and pf s arbitrary: v r and v r and ps r and v r and vs r
    rule: scan_once_JSONObject_object_pairs_JSONArray_array_values.pinduct)
  case (1 parse_float s)
  from "1.prems" "1.hyps"(1) show ?case
    apply (simp add: scan_once.psimps split: list.splits if_splits option.splits prod.splits)
    using "1.hyps"(2,3)
    by (force dest!: scanstring_length match_number_length intro: less_SucI)+
next
  case (2 parse_float s)
  note dom = "2.hyps"(1) and IH = "2.hyps"(2)
  show ?case
  proof (cases "skip_ws s")
    case Nil
    with "2.prems" dom show ?thesis by (simp add: JSONObject.psimps)
  next
    case (Cons c rest)
    then have len: "length rest < length s" by (rule skip_ws_Cons_length)
    show ?thesis
    proof (cases "c = 125")
      case True
      with "2.prems" dom Cons len show ?thesis by (simp add: JSONObject.psimps)
    next
      case False
      with "2.prems" dom Cons obtain ps
        where c: "c = 34" and op: "object_pairs parse_float rest = Some (ps, r)"
        by (auto simp: JSONObject.psimps split: if_splits option.splits)
      from IH [OF Cons False c op] len show ?thesis by simp
    qed
  qed
next
  case (3 parse_float s)
  note dom = "3.hyps"(1) and IH1 = "3.hyps"(2) and IH2 = "3.hyps"(3)
  from "3.prems" dom obtain key r0 r1 val r2 nextchar r3
    where ss: "scanstring s = Some (key, r0)"
      and c1: "skip_ws r0 = 58 # r1"
      and so: "scan_once parse_float (skip_ws r1) = Some (val, r2)"
      and c2: "skip_ws r2 = nextchar # r3"
      and rest: "nextchar = 125 \<and> r = r3 \<or>
                 nextchar = 44 \<and> (\<exists>r4 ps'. skip_ws r3 = 34 # r4 \<and>
                   object_pairs parse_float r4 = Some (ps', r))"
    by (auto simp: object_pairs.psimps split: if_splits option.splits list.splits prod.splits)
  have l0: "length r0 < length s" using ss by (rule scanstring_length)
  have l1: "length r1 < length r0" using c1 by (rule skip_ws_Cons_length)
  have l2: "length r2 < length (skip_ws r1)"
    by (rule IH1 [OF ss refl c1 _ so]) simp
  have l2': "length (skip_ws r1) \<le> length r1" by (rule skip_ws_length)
  have l3: "length r3 < length r2" using c2 by (rule skip_ws_Cons_length)
  from rest show ?case
  proof
    assume "nextchar = 125 \<and> r = r3"
    with l0 l1 l2 l2' l3 show ?thesis by simp
  next
    assume "nextchar = 44 \<and> (\<exists>r4 ps'. skip_ws r3 = 34 # r4 \<and>
              object_pairs parse_float r4 = Some (ps', r))"
    then obtain r4 ps' where n: "nextchar = 44" and c3: "skip_ws r3 = 34 # r4"
      and op: "object_pairs parse_float r4 = Some (ps', r)" by blast
    have l4: "length r4 < length r3" using c3 by (rule skip_ws_Cons_length)
    have "length r < length r4"
      by (rule IH2 [OF ss refl c1 _ so refl c2 [unfolded n] _ _ c3 _ op]) simp_all
    with l0 l1 l2 l2' l3 l4 show ?thesis by simp
  qed
next
  case (4 parse_float s)
  note dom = "4.hyps"(1) and IH = "4.hyps"(2)
  show ?case
  proof (cases "skip_ws s")
    case Nil
    with "4.prems" dom show ?thesis by (simp add: JSONArray.psimps)
  next
    case (Cons c rest)
    then have len: "length rest < length s" by (rule skip_ws_Cons_length)
    show ?thesis
    proof (cases "c = 93")
      case True
      with "4.prems" dom Cons len show ?thesis by (simp add: JSONArray.psimps)
    next
      case False
      with "4.prems" dom Cons obtain vs
        where av: "array_values parse_float (c # rest) = Some (vs, r)"
        by (auto simp: JSONArray.psimps split: if_splits option.splits)
      from IH [OF Cons False av] len show ?thesis by simp
    qed
  qed
next
  case (5 parse_float s)
  note dom = "5.hyps"(1) and IH1 = "5.hyps"(2) and IH2 = "5.hyps"(3)
  from "5.prems" dom obtain val r0 nextchar r1
    where so: "scan_once parse_float s = Some (val, r0)"
      and c1: "skip_ws r0 = nextchar # r1"
      and rest: "nextchar = 93 \<and> r = r1 \<or>
                 nextchar = 44 \<and> (\<exists>vs'. array_values parse_float (skip_ws r1) = Some (vs', r))"
    by (auto simp: array_values.psimps split: if_splits option.splits list.splits prod.splits)
  have l0: "length r0 < length s" using so by (rule IH1)
  have l1: "length r1 < length r0" using c1 by (rule skip_ws_Cons_length)
  have l1': "length (skip_ws r1) \<le> length r1" by (rule skip_ws_length)
  from rest show ?case
  proof
    assume "nextchar = 93 \<and> r = r1"
    with l0 l1 show ?thesis by simp
  next
    assume "nextchar = 44 \<and> (\<exists>vs'. array_values parse_float (skip_ws r1) = Some (vs', r))"
    then obtain vs' where n: "nextchar = 44"
      and av: "array_values parse_float (skip_ws r1) = Some (vs', r)" by blast
    have "length r < length (skip_ws r1)"
      by (rule IH2 [OF so refl c1 [unfolded n] _ _ av]) simp_all
    with l0 l1 l1' show ?thesis by simp
  qed
qed

termination scan_once
proof (relation "measure (\<lambda>x. case x of
            Inl (Inl (pf, s)) \<Rightarrow> 3 * length s
          | Inl (Inr (pf, s)) \<Rightarrow> 3 * length s + 2
          | Inr (Inl (pf, s)) \<Rightarrow> 3 * length s + 1
          | Inr (Inr (Inl (pf, s))) \<Rightarrow> 3 * length s + 2
          | Inr (Inr (Inr (pf, s))) \<Rightarrow> 3 * length s + 1)", goal_cases)
  case 1
  show ?case by simp
next
  case 2
  then show ?case by simp
next
  case 3
  then show ?case by simp
next
  case (4 pf s x21 x22)
  then show ?case by (auto dest!: skip_ws_Cons_length)
next
  case (5 pf s x2 x y x21 x22)
  then have "length y < length s" "length x22 < length y"
    by (auto dest!: skip_ws_Cons_length scanstring_length)
  with skip_ws_length [of x22] show ?case by simp
next
  case (6 pf s x2 x y x21 x22 x2a xa ya x21a x22a x21b x22b)
  then have "length y < length s" "length x22 < length y" "length ya < length (skip_ws x22)"
    "length x22a < length ya" "length x22b < length x22a"
    by (auto dest!: skip_ws_Cons_length scanstring_length dest: scan_length_dom(1))
  with skip_ws_length [of x22] show ?case by simp
next
  case (7 pf s x21 x22)
  then show ?case by (auto dest!: skip_ws_Cons_length)
next
  case 8
  then show ?case by simp
next
  case (9 pf s x2 x y x21 x22)
  then have "length y < length s" "length x22 < length y"
    by (auto dest!: skip_ws_Cons_length dest: scan_length_dom(1))
  with skip_ws_length [of x22] show ?case by simp
qed


section \<open>json.loads, the fence search, json.dumps\<close>

text \<open>
  \<open>json.loads\<close> on a \<open>str\<close>: \<open>None\<close> stands for \<open>JSONDecodeError\<close>. The scanner is the
  one CPython uses (the accelerated one: ASCII digits, strict hexadecimal escapes); the
  interpreter's resource limits (recursion depth, integer digits) are not modelled. The
  conversion of a float literal is the parameter \<open>parse_float\<close>, as in the decoder itself.
\<close>

definition json_loads :: "(pystr \<Rightarrow> 'f pyfloat) \<Rightarrow> pystr \<Rightarrow> 'f json option" where
  "json_loads parse_float s =
     (if take 1 s = [0xFEFF] then None
      else
        (case scan_once parse_float (skip_ws s) of
           None \<Rightarrow> None
         | Some (obj, r) \<Rightarrow> if skip_ws r = [] then Some obj else None))"

fun lazy_until_fence :: "pystr \<Rightarrow> pystr option" where
  "lazy_until_fence [] = None"
| "lazy_until_fence (c # cs) =
     (if take 3 (c # cs) = [0x60, 0x60, 0x60] then Some []
      else (case lazy_until_fence cs of None \<Rightarrow> None | Some g \<Rightarrow> Some (c # g)))"

definition match_here :: "pystr \<Rightarrow> pystr option" where
  "match_here s =
     (if take 8 s = [0x60, 0x60, 0x60, 0x6A, 0x73, 0x6F, 0x6E, 0x0A]
      then lazy_until_fence (drop 8 s) else None)"

fun re_search :: "pystr \<Rightarrow> pystr option" where
  "re_search [] = None"
| "re_search (c # cs) =
     (case match_here (c # cs) of Some g \<Rightarrow> Some g | None \<Rightarrow> re_search cs)"

definition hex_digit :: "nat \<Rightarrow> nat" where
  "hex_digit d = (if d < 10 then 0x30 + d else 0x61 + (d - 10))"

definition hex4 :: "nat \<Rightarrow> pystr" where
  "hex4 n = [hex_digit (n div 4096 mod 16), hex_digit (n div 256 mod 16),
             hex_digit (n div 16 mod 16), hex_digit (n mod 16)]"

definition escape_char :: "nat \<Rightarrow> pystr" where
  "escape_char c =
     (if c = 0x5C then [0x5C, 0x5C]
      else if c = 0x22 then [0x5C, 0x22]
      else if c = 0x08 then [0x5C, 0x62]
      else if c = 0x0C then [0x5C, 0x66]
      else if c = 0x0A then [0x5C, 0x6E]
      else if c = 0x0D then [0x5C, 0x72]
      else if c = 0x09 then [0x5C, 0x74]
      else if 0x20 \<le> c \<and> c \<le> 0x7E then [c]
      else if c < 0x10000 then [0x5C, 0x75] @ hex4 c
      else (let n = c - 0x10000;
                s1 = 0xD800 + (n div 0x400) mod 0x400;
                s2 = 0xDC00 + n mod 0x400
            in [0x5C, 0x75] @ hex4 s1 @ [0x5C, 0x75] @ hex4 s2))"

definition encode_basestring_ascii :: "pystr \<Rightarrow> pystr" where
  "encode_basestring_ascii s = [0x22] @ concat (map escape_char s) @ [0x22]"

fun nat_repr :: "nat \<Rightarrow> pystr" where
  "nat_repr n = (if n < 10 then [0x30 + n] else nat_repr (n div 10) @ [0x30 + n mod 10])"

declare nat_repr.simps [simp del]

definition int_repr :: "int \<Rightarrow> pystr" where
  "int_repr i = (if i < 0 then 0x2D # nat_repr (nat (- i)) else nat_repr (nat i))"

definition floatstr :: "('f \<Rightarrow> pystr) \<Rightarrow> 'f pyfloat \<Rightarrow> pystr" where
  "floatstr float_repr x0 =
     (case x0 of
        NaN \<Rightarrow> str ''NaN''
      | PosInf \<Rightarrow> str ''Infinity''
      | NegInf \<Rightarrow> str ''-Infinity''
      | Finite x \<Rightarrow> float_repr x)"

fun join :: "pystr \<Rightarrow> pystr list \<Rightarrow> pystr" where
  "join sep [] = []"
| "join sep [x] = x"
| "join sep (x # y # ys) = x @ sep @ join sep (y # ys)"

definition newline_indent :: "nat option \<Rightarrow> nat \<Rightarrow> pystr" where
  "newline_indent indent level =
     (case indent of None \<Rightarrow> [] | Some n \<Rightarrow> 0x0A # replicate (n * level) 0x20)"

definition item_separator :: "nat option \<Rightarrow> pystr" where
  "item_separator indent = (case indent of None \<Rightarrow> [0x2C, 0x20] | Some n \<Rightarrow> [0x2C])"

fun iterencode :: "('f \<Rightarrow> pystr) \<Rightarrow> nat option \<Rightarrow> nat \<Rightarrow> 'f json \<Rightarrow> pystr" where
  "iterencode fr indent level (JStr s) = encode_basestring_ascii s"
| "iterencode fr indent level JNull = str ''null''"
| "iterencode fr indent level (JBool b) = (if b then str ''true'' else str ''false'')"
| "iterencode fr indent level (JInt i) = int_repr i"
| "iterencode fr indent level (JFloat f) = floatstr fr f"
| "iterencode fr indent level (JList lst) =
     (if lst = [] then str ''[]''
      else [0x5B] @ newline_indent indent (level + 1)
           @ join (item_separator indent @ newline_indent indent (level + 1))
                (map (iterencode fr indent (level + 1)) lst)
           @ newline_indent indent level @ [0x5D])"
| "iterencode fr indent level (JDict dct) =
     (if dct = [] then str ''{}''
      else [0x7B] @ newline_indent indent (level + 1)
           @ join (item_separator indent @ newline_indent indent (level + 1))
                (map (\<lambda>kv. encode_basestring_ascii (fst kv) @ [0x3A, 0x20]
                             @ iterencode fr indent (level + 1) (snd kv)) dct)
           @ newline_indent indent level @ [0x7D])"

definition json_dumps :: "('f \<Rightarrow> pystr) \<Rightarrow> nat option \<Rightarrow> 'f json \<Rightarrow> pystr" where
  "json_dumps fr indent obj = iterencode fr indent 0 obj"


section \<open>SchemaGenerator\<close>

text \<open>
  The generation service is a parameter: \<open>model p\<close> is what
  \<open>self.model.generate_content(p)\<close> followed by \<open>response.text\<close> gives, a text or an
  exception. \<open>generate_schema_try\<close> is the body of the \<open>try\<close> block, \<open>generate_schema\<close>
  the whole method with its three handlers; \<open>None\<close> is \<open>JNull\<close>.
\<close>

record SchemaGenerator =
  rate_limiter :: RateLimiter

definition SchemaGenerator_init :: SchemaGenerator where
  "SchemaGenerator_init = \<lparr>rate_limiter = RateLimiter_init 60 60\<rparr>"

definition prompt_text :: "pystr \<Rightarrow> pystr" where
  "prompt_text prompt =
     str ''Generate a JSON schema based on this description: '' @ prompt @
     str ''. Ensure the schema is valid JSON and includes appropriate types and constraints.''"

text \<open>
  The extraction step of \<open>generate_schema\<close>:
  \<^verbatim>\<open>json_match = re.search(r'```json\n(.*?)```', schema_text, re.DOTALL)
  if json_match:
      schema_text = json_match.group(1)
  schema = json.loads(schema_text)\<close>
\<close>

definition extract_schema :: "(pystr \<Rightarrow> 'f pyfloat) \<Rightarrow> pystr \<Rightarrow> 'f json option" where
  "extract_schema parse_float schema_text =
     json_loads parse_float
       (case re_search schema_text of
          Some json_match \<Rightarrow> json_match
        | None \<Rightarrow> schema_text)"

definition generate_schema_try ::
  "(pystr \<Rightarrow> 'f pyfloat) \<Rightarrow> (pystr \<Rightarrow> pystr result) \<Rightarrow> SchemaGenerator \<Rightarrow> pystr \<Rightarrow>
   'e env_scheme \<Rightarrow> 'f json result \<times> SchemaGenerator \<times> 'e env_scheme" where
  "generate_schema_try parse_float model self prompt w =
     (case wait (rate_limiter self) w of
        (Raised e, rl, w1) \<Rightarrow> (Raised e, self\<lparr>rate_limiter := rl\<rparr>, w1)
      | (Returned _, rl, w1) \<Rightarrow>
          (let w2 = emit [Generate_content (prompt_text prompt)] w1
           in case model (prompt_text prompt) of
                Raised e \<Rightarrow> (Raised e, self\<lparr>rate_limiter := rl\<rparr>, w2)
              | Returned response_text \<Rightarrow>
                  (case extract_schema parse_float response_text of
                     None \<Rightarrow> (Raised JSONDecodeError, self\<lparr>rate_limiter := rl\<rparr>, w2)
                   | Some schema \<Rightarrow> (Returned schema, self\<lparr>rate_limiter := rl\<rparr>, w2))))"

definition generate_schema ::
  "(pystr \<Rightarrow> 'f pyfloat) \<Rightarrow> (pystr \<Rightarrow> pystr result) \<Rightarrow> SchemaGenerator \<Rightarrow> pystr \<Rightarrow>
   'e env_scheme \<Rightarrow> 'f json \<times> SchemaGenerator \<times> 'e env_scheme" where
  "generate_schema parse_float model self prompt w =
     (case generate_schema_try parse_float model self prompt w of
        (Returned schema, self', w') \<Rightarrow> (schema, self', w')
      | (Raised (BlockedPromptException m), self', w') \<Rightarrow>
          (JNull, self', emit [St_error (Prompt_blocked m)] w')
      | (Raised JSONDecodeError, self', w') \<Rightarrow>
          (JNull, self', emit [St_error Could_not_parse] w')
      | (Raised e, self', w') \<Rightarrow>
          (JNull, self', emit [St_error (Error_generating e)] w'))"

section \<open>The record store\<close>

text \<open>
  The table \<open>schemas\<close> is a list of rows in insertion order. \<open>uuid4 n\<close> is the value of
  the \<open>n\<close>-th call of \<open>uuid.uuid4()\<close>, \<open>datetime.now()\<close> reads the clock. Failures of
  the database itself are not modelled.
\<close>

record row =
  id_col :: pystr
  prompt_col :: pystr
  schema_col :: pystr
  created_at_col :: real

record world = env +
  db :: "row list"
  uuid_count :: nat

definition insert_schema ::
  "(nat \<Rightarrow> pystr) \<Rightarrow> ('f \<Rightarrow> pystr) \<Rightarrow> pystr \<Rightarrow> 'f json \<Rightarrow> world \<Rightarrow> pystr \<times> world" where
  "insert_schema uuid4 float_repr p schema w =
     (let schema_id = uuid4 (uuid_count w);
          r = \<lparr>id_col = schema_id, prompt_col = p,
               schema_col = json_dumps float_repr None schema, created_at_col = clock w\<rparr>
      in (schema_id, w\<lparr>db := db w @ [r], uuid_count := uuid_count w + 1\<rparr>))"

definition truthy :: "('f \<Rightarrow> bool) \<Rightarrow> 'f json \<Rightarrow> bool" where
  "truthy is_zero v =
     (case v of
        JNull \<Rightarrow> False
      | JBool b \<Rightarrow> b
      | JInt i \<Rightarrow> i \<noteq> 0
      | JFloat f \<Rightarrow> (case f of Finite x \<Rightarrow> \<not> is_zero x | _ \<Rightarrow> True)
      | JStr s \<Rightarrow> s \<noteq> []
      | JList l \<Rightarrow> l \<noteq> []
      | JDict d \<Rightarrow> d \<noteq> [])"

definition run_generate ::
  "(pystr \<Rightarrow> 'f pyfloat) \<Rightarrow> ('f \<Rightarrow> pystr) \<Rightarrow> ('f \<Rightarrow> bool) \<Rightarrow> (nat \<Rightarrow> pystr) \<Rightarrow>
   (pystr \<Rightarrow> pystr result) \<Rightarrow> SchemaGenerator option \<Rightarrow> pystr \<Rightarrow> world \<Rightarrow>
   SchemaGenerator option \<times> world" where
  "run_generate parse_float float_repr is_zero uuid4 model schema_generator p w =
     (if p \<noteq> [] then
        (case schema_generator of
           None \<Rightarrow>
             (None, emit [St_error (Error_generating
                (Exception (str ''NoneType object has no attribute generate_schema'')))] w)
         | Some g \<Rightarrow>
             (case generate_schema parse_float model g p w of
                (schema, g', w') \<Rightarrow>
                  if truthy is_zero schema
                  then (Some g', snd (insert_schema uuid4 float_repr p schema w'))
                  else (Some g', w')))
      else (schema_generator, emit [St_warning Please_enter_prompt] w))"

section \<open>Upload\<close>

text \<open>
  \<open>bytes.decode('utf-8')\<close> in strict mode; \<open>None\<close> stands for \<open>UnicodeDecodeError\<close>. The
  loop of \<open>_upload_schema_files\<close> follows, then the feedback it shows (the expanders that
  only display are left out).
\<close>

definition continuation :: "nat \<Rightarrow> bool" where
  "continuation b = (0x80 \<le> b \<and> b \<le> 0xBF)"

definition with_cp :: "nat \<Rightarrow> pystr option \<Rightarrow> pystr option" where
  "with_cp c r = (case r of None \<Rightarrow> None | Some cs \<Rightarrow> Some (c # cs))"

fun decode_utf8 :: "nat list \<Rightarrow> pystr option" where
  "decode_utf8 [] = Some []"
| "decode_utf8 (b0 # bs) =
     (if b0 < 0x80 then with_cp b0 (decode_utf8 bs)
      else if 0xC2 \<le> b0 \<and> b0 \<le> 0xDF then
        (case bs of
           b1 # r \<Rightarrow>
             if continuation b1
             then with_cp ((b0 - 0xC0) * 0x40 + (b1 - 0x80)) (decode_utf8 r)
             else None
         | _ \<Rightarrow> None)
      else if 0xE0 \<le> b0 \<and> b0 \<le> 0xEF then
        (case bs of
           b1 # b2 # r \<Rightarrow>
             if (if b0 = 0xE0 then 0xA0 \<le> b1 \<and> b1 \<le> 0xBF
                 else if b0 = 0xED then 0x80 \<le> b1 \<and> b1 \<le> 0x9F
                 else continuation b1) \<and> continuation b2
             then with_cp (((b0 - 0xE0) * 0x40 + (b1 - 0x80)) * 0x40 + (b2 - 0x80))
                    (decode_utf8 r)
             else None
         | _ \<Rightarrow> None)
      else if 0xF0 \<le> b0 \<and> b0 \<le> 0xF4 then
        (case bs of
           b1 # b2 # b3 # r \<Rightarrow>
             if (if b0 = 0xF0 then 0x90 \<le> b1 \<and> b1 \<le> 0xBF
                 else if b0 = 0xF4 then 0x80 \<le> b1 \<and> b1 \<le> 0x8F
                 else continuation b1) \<and> continuation b2 \<and> continuation b3
             then with_cp ((((b0 - 0xF0) * 0x40 + (b1 - 0x80)) * 0x40 + (b2 - 0x80)) * 0x40
                            + (b3 - 0x80))
                    (decode_utf8 r)
             else None
         | _ \<Rightarrow> None)
      else None)"

definition bytes_decode :: "string \<Rightarrow> pystr option" where
  "bytes_decode bs = decode_utf8 (map of_char bs)"

record uploaded_file =
  name :: pystr
  getvalue :: string

record 'f successful_upload =
  filename :: pystr
  upload_id :: pystr
  upload_schema :: "'f json"

fun upload_loop ::
  "(pystr \<Rightarrow> 'f pyfloat) \<Rightarrow> ('f \<Rightarrow> pystr) \<Rightarrow> (nat \<Rightarrow> pystr) \<Rightarrow> uploaded_file list \<Rightarrow>
   'f successful_upload list \<Rightarrow> (pystr \<times> upload_error) list \<Rightarrow> world \<Rightarrow>
   'f successful_upload list \<times> (pystr \<times> upload_error) list \<times> world" where
  "upload_loop parse_float float_repr uuid4 [] successful_uploads failed_uploads w =
     (successful_uploads, failed_uploads, w)"
| "upload_loop parse_float float_repr uuid4 (f # fs) successful_uploads failed_uploads w =
     (case bytes_decode (getvalue f) of
        None \<Rightarrow>
          upload_loop parse_float float_repr uuid4 fs successful_uploads
            (failed_uploads @ [(name f, Str_of UnicodeDecodeError)]) w
      | Some file_content \<Rightarrow>
          (case json_loads parse_float file_content of
             None \<Rightarrow>
               upload_loop parse_float float_repr uuid4 fs successful_uploads
                 (failed_uploads @ [(name f, Invalid_JSON_format)]) w
           | Some schema \<Rightarrow>
               (case insert_schema uuid4 float_repr (str ''Uploaded: '' @ name f) schema w of
                  (sid, w') \<Rightarrow>
                    upload_loop parse_float float_repr uuid4 fs
                      (successful_uploads @
                         [\<lparr>filename = name f, upload_id = sid, upload_schema = schema\<rparr>])
                      failed_uploads w')))"

definition upload_schema_files ::
  "(pystr \<Rightarrow> 'f pyfloat) \<Rightarrow> ('f \<Rightarrow> pystr) \<Rightarrow> (nat \<Rightarrow> pystr) \<Rightarrow> uploaded_file list \<Rightarrow>
   world \<Rightarrow> 'f successful_upload list \<times> (pystr \<times> upload_error) list \<times> world" where
  "upload_schema_files parse_float float_repr uuid4 uploaded_files w =
     (case upload_loop parse_float float_repr uuid4 uploaded_files [] [] w of
        (successful_uploads, failed_uploads, w1) \<Rightarrow>
          (let w2 = (if successful_uploads \<noteq> []
                     then emit [St_success (Files_uploaded (length successful_uploads))] w1
                     else w1);
               w3 = (if failed_uploads \<noteq> []
                     then emit (St_warning (Files_failed (length failed_uploads)) #
                                map (\<lambda>(fname, err). St_error (File_error fname err)) failed_uploads)
                            w2
                     else w2)
           in (successful_uploads, failed_uploads, w3)))"

text \<open>
  What the first two statements of the loop body make of one file: the document parsed
  from its bytes, or \<open>None\<close> when the decoding or the parsing raises. \<open>accepted\<close> and
  \<open>rejected\<close> split a batch accordingly, keeping the order.
\<close>

definition file_schema :: "(pystr \<Rightarrow> 'f pyfloat) \<Rightarrow> uploaded_file \<Rightarrow> 'f json option" where
  "file_schema parse_float f =
     (case bytes_decode (getvalue f) of
        None \<Rightarrow> None
      | Some file_content \<Rightarrow> json_loads parse_float file_content)"

definition accepted :: "(pystr \<Rightarrow> 'f pyfloat) \<Rightarrow> uploaded_file list \<Rightarrow> uploaded_file list" where
  "accepted parse_float fs = filter (\<lambda>f. file_schema parse_float f \<noteq> None) fs"

definition rejected :: "(pystr \<Rightarrow> 'f pyfloat) \<Rightarrow> uploaded_file list \<Rightarrow> uploaded_file list" where
  "rejected parse_float fs = filter (\<lambda>f. file_schema parse_float f = None) fs"



text \<open>
  A lexical abstraction of JSON texts, used to relate the two stages of the extraction: an
  automaton that tracks whether the position is outside a string, inside one, or right
  after a backslash inside one. It rejects a backquote outside a string and a control
  character inside one. \<open>steps st s st' r\<close>: the text \<open>s\<close> ends with \<open>r\<close>, and the part
  before \<open>r\<close> takes the automaton from \<open>st\<close> to \<open>st'\<close>.
\<close>

datatype lexstate = Outside | Inside | Escaped

fun lexer :: "lexstate \<Rightarrow> pystr \<Rightarrow> lexstate option" where
  "lexer st [] = Some st"
| "lexer Outside (c # cs) =
     (if c = 0x60 then None else if c = 0x22 then lexer Inside cs else lexer Outside cs)"
| "lexer Inside (c # cs) =
     (if c = 0x22 then lexer Outside cs
      else if c = 0x5C then lexer Escaped cs
      else if c < 0x20 then None
      else lexer Inside cs)"
| "lexer Escaped (c # cs) = lexer Inside cs"

definition steps :: "lexstate \<Rightarrow> pystr \<Rightarrow> lexstate \<Rightarrow> pystr \<Rightarrow> bool" where
  "steps st s st' r = (\<exists>c. s = c @ r \<and> lexer st c = Some st')"

definition plain :: "pystr \<Rightarrow> bool" where
  "plain cs = (\<forall>c \<in> set cs. c \<noteq> 0x22 \<and> c \<noteq> 0x60)"

text \<open>
  The download of one record in \<open>_view_records\<close>:
  \<^verbatim>\<open>schema = json.loads(record[0])\<close> and then \<^verbatim>\<open>data=json.dumps(schema, indent=2)\<close>.
  The text is handed over as a file, that is as its UTF-8 encoding: \<open>str_encode\<close> is
  \<open>str.encode('utf-8')\<close> in strict mode, \<open>None\<close> standing for \<open>UnicodeEncodeError\<close>.
\<close>

definition export_record :: "(pystr \<Rightarrow> 'f pyfloat) \<Rightarrow> ('f \<Rightarrow> pystr) \<Rightarrow> row \<Rightarrow> pystr option" where
  "export_record parse_float float_repr record =
     (case json_loads parse_float (schema_col record) of
        None \<Rightarrow> None
      | Some schema \<Rightarrow> Some (json_dumps float_repr (Some 2) schema))"

definition encode_cp :: "nat \<Rightarrow> nat list option" where
  "encode_cp c =
     (if c < 0x80 then Some [c]
      else if c < 0x800 then Some [0xC0 + c div 0x40, 0x80 + c mod 0x40]
      else if 0xD800 \<le> c \<and> c \<le> 0xDFFF then None
      else if c < 0x10000
      then Some [0xE0 + c div 0x1000, 0x80 + c div 0x40 mod 0x40, 0x80 + c mod 0x40]
      else if c < 0x110000
      then Some [0xF0 + c div 0x40000, 0x80 + c div 0x1000 mod 0x40,
                 0x80 + c div 0x40 mod 0x40, 0x80 + c mod 0x40]
      else None)"

fun str_encode :: "pystr \<Rightarrow> string option" where
  "str_encode [] = Some []"
| "str_encode (c # cs) =
     (case encode_cp c of
        None \<Rightarrow> None
      | Some bs \<Rightarrow>
          (case str_encode cs of None \<Rightarrow> None | Some r \<Rightarrow> Some (map char_of bs @ r)))"

text \<open>
  The documents on which the round trip is stated. A string is a sequence of code points
  below \<open>0x110000\<close> in which no high surrogate is directly followed by a low surrogate
  (a Python \<open>str\<close> decoded from UTF-8 holds no surrogate at all). A finite float is one
  whose \<open>repr\<close> is a JSON number literal with a fraction or an exponent that
  \<open>parse_float\<close> reads back as the same float, which is what \<open>float.__repr__\<close>
  guarantees. The keys of an object are distinct, as in every \<open>dict\<close>.
\<close>

definition high_surrogate :: "nat \<Rightarrow> bool" where
  "high_surrogate c = (0xD800 \<le> c \<and> c \<le> 0xDBFF)"

definition low_surrogate :: "nat \<Rightarrow> bool" where
  "low_surrogate c = (0xDC00 \<le> c \<and> c \<le> 0xDFFF)"

fun str_ok :: "pystr \<Rightarrow> bool" where
  "str_ok [] = True"
| "str_ok [c] = (c < 0x110000)"
| "str_ok (c # d # cs) =
     (c < 0x110000 \<and> \<not> (high_surrogate c \<and> low_surrogate d) \<and> str_ok (d # cs))"

definition float_ok :: "(pystr \<Rightarrow> 'f pyfloat) \<Rightarrow> ('f \<Rightarrow> pystr) \<Rightarrow> 'f \<Rightarrow> bool" where
  "float_ok parse_float float_repr x =
     (case match_number (float_repr x) of
        None \<Rightarrow> False
      | Some ((integer, fraction, expo), r) \<Rightarrow>
          r = [] \<and> (fraction \<noteq> [] \<or> expo \<noteq> []) \<and>
          parse_float (integer @ fraction @ expo) = Finite x)"

fun wellformed :: "(pystr \<Rightarrow> 'f pyfloat) \<Rightarrow> ('f \<Rightarrow> pystr) \<Rightarrow> 'f json \<Rightarrow> bool" where
  "wellformed pf fr JNull = True"
| "wellformed pf fr (JBool b) = True"
| "wellformed pf fr (JInt i) = True"
| "wellformed pf fr (JFloat f) = (case f of Finite x \<Rightarrow> float_ok pf fr x | _ \<Rightarrow> True)"
| "wellformed pf fr (JStr s) = str_ok s"
| "wellformed pf fr (JList l) = (\<forall>v \<in> set l. wellformed pf fr v)"
| "wellformed pf fr (JDict d) =
     (distinct (map fst d) \<and> (\<forall>kv \<in> set d. str_ok (fst kv) \<and> wellformed pf fr (snd kv)))"

text \<open>
  Auxiliary notions for the proofs: the text that may follow a number literal inside a
  serialised document, a text that does not continue a high surrogate escape with a low
  one, and texts made of ASCII characters only.
\<close>

definition delimited :: "pystr \<Rightarrow> bool" where
  "delimited rest =
     (case rest of [] \<Rightarrow> True | c # _ \<Rightarrow> c = 0x2C \<or> c = 0x0A \<or> c = 0x5D \<or> c = 0x7D)"

definition nlf :: "pystr \<Rightarrow> bool" where
  "nlf t = (take 2 t = [0x5C, 0x75] \<longrightarrow>
            (\<exists>u. decode_uXXXX (drop 2 t) = Some u \<and> \<not> low_surrogate u))"

definition ascii :: "pystr \<Rightarrow> bool" where
  "ascii s = (\<forall>c \<in> set s. c < 0x80)"


section \<open>Reading a trace\<close>

text \<open>The messages shown through \<open>st.error\<close>, and the instants appended to the deque.\<close>

fun st_errors :: "event list \<Rightarrow> message list" where
  "st_errors [] = []"
| "st_errors (St_error m # es) = m # st_errors es"
| "st_errors (_ # es) = st_errors es"

fun appends :: "event list \<Rightarrow> real list" where
  "appends [] = []"
| "appends (Append t # es) = t # appends es"
| "appends (_ # es) = appends es"

section \<open>Properties of the rate limiter\<close>

lemma popleft_while_concat:
  "popleft_while now tf ts = (popped, kept) \<Longrightarrow> ts = popped @ kept"
  by (induction ts arbitrary: popped kept) (auto split: if_splits prod.splits)

lemma popleft_while_head:
  "popleft_while now tf ts = (popped, k # ks) \<Longrightarrow> now - k \<le> tf"
  by (induction ts arbitrary: popped) (auto split: if_splits prod.splits)

lemma popleft_while_popped:
  "popleft_while now tf ts = (popped, kept) \<Longrightarrow> \<forall>t \<in> set popped. now - t > tf"
  by (induction ts arbitrary: popped kept) (auto split: if_splits prod.splits)

lemma trace_emit: "trace (emit es w) = trace w @ es"
  by (simp add: emit_def)

lemma clock_emit: "clock (emit es w) = clock w"
  by (simp add: emit_def)

lemma trace_sleep: "trace (sleep d w) = trace w @ [Sleep d]"
  by (simp add: sleep_def emit_def)

lemma clock_sleep: "clock (sleep d w) = clock w + d"
  by (simp add: sleep_def emit_def)

lemma sleeps_append: "sleeps (xs @ ys) = sleeps xs @ sleeps ys"
  by (induction xs rule: sleeps.induct) auto

lemma sleeps_Popleft: "sleeps (map Popleft ps) = []"
  by (induction ps) auto

text \<open>
  C1 (the quota is exceeded). A limiter of one request per ten seconds is called at the
  instants 0 and 1, and again half a second after the second call has returned. The second
  call sleeps nine seconds and records the instant 1, the third sleeps half a second and
  records the instant 10.5. The deque then holds two instants of one ten-second window,
  and the second and third call returned at the instants 10 and 11, one second apart.
\<close>

theorem C1_quota_exceeded:
  "(case wait_calls [0, 1, 1 / 2] (RateLimiter_init 1 10) env0 of
      (returned_at, self, w) \<Rightarrow>
        max_requests self = 1 \<and> time_frame self = 10 \<and>
        request_times self = [1, 21 / 2] \<and>
        count_in_window 1 10 (request_times self) = 2 \<and>
        returned_at = [0, 10, 11] \<and>
        count_in_window 10 10 returned_at = 2)"
  by (simp add: wait_def Let_def RateLimiter_init_def env0_def advance_def emit_def sleep_def
      count_in_window_def)

text \<open>
  A call of \<open>wait\<close> that finds the window full after eviction, with a positive wait time,
  is a single pass: one clock read, taking the lock, the evictions, the warning, one sleep
  of the wait time, the append of the instant read at entry, releasing the lock. The
  result is determined completely.
\<close>

lemma wait_full_window:
  assumes "popleft_while (clock w) (time_frame self) (request_times self) = (popped, oldest # rest)"
    and "int (length (oldest # rest)) \<ge> max_requests self"
    and "time_frame self - (clock w - oldest) > 0"
  shows "wait self w =
           (Returned (),
            self\<lparr>request_times := oldest # rest @ [clock w]\<rparr>,
            w\<lparr>clock := clock w + (time_frame self - (clock w - oldest)),
              trace := trace w @
                [Time_read (clock w), Lock_acquire] @ map Popleft popped @
                [St_warning (Rate_limit_reached (time_frame self - (clock w - oldest))),
                 Sleep (time_frame self - (clock w - oldest)), Append (clock w), Lock_release]\<rparr>)"
  using assms by (simp add: wait_def Let_def emit_def sleep_def)

text \<open>
  C2 (no release of the lock, no re-validation). A limiter of one request per ten seconds
  holds the instant 0 and is called at the instant 1. The call sleeps nine seconds between
  taking and releasing the lock, and the append follows the sleep directly: no second
  clock read, no second eviction, no second check of the quota. It returns at the instant
  10 having recorded the instant 1, and the deque holds two instants although the quota
  is one.
\<close>

theorem C2_sleeps_locked_no_revalidation:
  "(case wait \<lparr>max_requests = 1, time_frame = 10, request_times = [0]\<rparr>
              \<lparr>clock = 1, trace = []\<rparr> of
      (r, self', w') \<Rightarrow>
        r = Returned () \<and>
        trace w' = [Time_read 1, Lock_acquire, St_warning (Rate_limit_reached 9), Sleep 9,
                    Append 1, Lock_release] \<and>
        \<not> sleeps_unlocked False (trace w') \<and>
        \<not> revalidates False (trace w') \<and>
        clock w' = 10 \<and>
        request_times self' = [0, 1])"
  by (simp add: wait_def Let_def emit_def sleep_def)

text \<open>
  C3: when at least \<open>max_requests\<close> (a positive number) entries remain after eviction, the
  call returns normally, the clock has advanced by exactly
  \<open>time_frame - (current_time - oldest)\<close>, the only sleep requested has that argument
  (no sleep is requested when the value is zero), and the timestamp is appended.
\<close>

theorem C3_blocks_for_wait_time:
  assumes "0 < max_requests self"
    and "popleft_while (clock w) (time_frame self) (request_times self) = (popped, kept)"
    and "int (length kept) \<ge> max_requests self"
  shows "\<exists>self' w'. wait self w = (Returned (), self', w') \<and>
           clock w' = clock w + (time_frame self - (clock w - hd kept)) \<and>
           sleeps (events_since w w') =
             (if time_frame self - (clock w - hd kept) > 0
              then [time_frame self - (clock w - hd kept)] else []) \<and>
           request_times self' = kept @ [clock w]"
proof -
  from assms(1,3) obtain oldest rest where kept: "kept = oldest # rest"
    by (cases kept) auto
  have "clock w - oldest \<le> time_frame self"
    using assms(2) unfolding kept by (rule popleft_while_head)
  then show ?thesis
    using assms(2,3) unfolding kept
    by (auto simp add: wait_def Let_def events_since_def trace_emit trace_sleep clock_emit
        clock_sleep sleeps_append sleeps_Popleft)
qed

theorem C3_blocks_for_wait_time_witness:
  "(0::int) < 2 \<and> popleft_while 14 10 [1, 5, 7] = ([1], [5, 7]) \<and> int (length [5, 7 :: real]) \<ge> 2 \<and>
   (\<exists>self' w'.
      wait \<lparr>max_requests = 2, time_frame = 10, request_times = [1, 5, 7]\<rparr>
           \<lparr>clock = 14, trace = []\<rparr> = (Returned (), self', w') \<and>
      clock w' = 15 \<and>
      sleeps (events_since \<lparr>clock = 14, trace = []\<rparr> w') = [1] \<and>
      request_times self' = [5, 7, 14])"
  using C3_blocks_for_wait_time
    [of "\<lparr>max_requests = 2, time_frame = 10, request_times = [1, 5, 7]\<rparr>"
        "\<lparr>clock = 14, trace = []\<rparr>" "[1]" "[5, 7]"]
  by simp

text \<open>
  C6: when fewer than \<open>max_requests\<close> entries remain after eviction, the call returns
  normally with the clock where it was, requests no sleep, and appends the timestamp.
\<close>

theorem C6_returns_without_blocking:
  assumes "popleft_while (clock w) (time_frame self) (request_times self) = (popped, kept)"
    and "int (length kept) < max_requests self"
  shows "\<exists>self' w'. wait self w = (Returned (), self', w') \<and>
           clock w' = clock w \<and>
           sleeps (events_since w w') = [] \<and>
           request_times self' = kept @ [clock w]"
  using assms
  by (auto simp add: wait_def Let_def events_since_def trace_emit clock_emit sleeps_append
      sleeps_Popleft)

theorem C6_returns_without_blocking_witness:
  "popleft_while 14 10 [1, 5, 7] = ([1], [5, 7]) \<and> int (length [5, 7 :: real]) < 3 \<and>
   (\<exists>self' w'.
      wait \<lparr>max_requests = 3, time_frame = 10, request_times = [1, 5, 7]\<rparr>
           \<lparr>clock = 14, trace = []\<rparr> = (Returned (), self', w') \<and>
      clock w' = 14 \<and>
      sleeps (events_since \<lparr>clock = 14, trace = []\<rparr> w') = [] \<and>
      request_times self' = [5, 7, 14])"
  using C6_returns_without_blocking
    [of "\<lparr>clock = 14, trace = []\<rparr>"
        "\<lparr>max_requests = 3, time_frame = 10, request_times = [1, 5, 7]\<rparr>" "[1]" "[5, 7]"]
  by simp

section \<open>Properties of the generator\<close>

lemma st_errors_append: "st_errors (xs @ ys) = st_errors xs @ st_errors ys"
  by (induction xs rule: st_errors.induct) auto

lemma appends_append: "appends (xs @ ys) = appends xs @ appends ys"
  by (induction xs rule: appends.induct) auto

lemma st_errors_Popleft: "st_errors (map Popleft ps) = []"
  by (induction ps) auto

lemma appends_Popleft: "appends (map Popleft ps) = []"
  by (induction ps) auto

lemma wait_Raised:
  assumes "wait self w = (Raised e, self', w')"
  shows "e = IndexError \<and> max_requests self \<le> 0 \<and>
         (\<exists>es. trace w' = trace w @ es \<and> st_errors es = [] \<and> appends es = []) \<and>
         env.more w' = env.more w"
  using assms
  by (auto simp: wait_def Let_def emit_def sleep_def st_errors_append st_errors_Popleft
      appends_append appends_Popleft split: prod.splits list.splits if_splits)

lemma wait_Returned:
  assumes "wait self w = (Returned u, self', w')"
  shows "\<exists>pre. trace w' = trace w @ pre @ [Append (clock w), Lock_release] \<and>
           st_errors pre = [] \<and> appends pre = [] \<and>
           request_times self' =
             snd (popleft_while (clock w) (time_frame self) (request_times self)) @ [clock w] \<and>
           env.more w' = env.more w"
  using assms
  by (auto simp: wait_def Let_def emit_def sleep_def st_errors_append st_errors_Popleft
      appends_append appends_Popleft split: prod.splits list.splits if_splits)

lemma wait_positive:
  assumes "0 < max_requests self"
  shows "\<exists>self' w'. wait self w = (Returned (), self', w')"
  using assms
  by (auto simp: wait_def Let_def split: prod.splits list.splits if_splits)


lemma wait_db:
  fixes w :: world
  assumes "wait self w = (r, self', w')"
  shows "db w' = db w \<and> uuid_count w' = uuid_count w"
  using assms
  by (auto simp: wait_def Let_def emit_def sleep_def split: prod.splits list.splits if_splits)

lemma events_since_append: "trace w' = trace w @ es \<Longrightarrow> events_since w w' = es"
  by (simp add: events_since_def)

text \<open>
  C5: \<open>generate_schema\<close> always returns a value, and the value together with the
  messages it shows through \<open>st.error\<close> is one of four kinds: the document parsed and no
  message; \<open>None\<close> and the message that the prompt was blocked; \<open>None\<close> and the message
  that the schema could not be parsed; \<open>None\<close> and the message that carries the text of
  any other exception (the \<open>IndexError\<close> of a limiter without a positive quota
  included). No exception leaves the method.
\<close>

theorem C5_typed_results:
  "(case generate_schema parse_float model self prompt w of
      (ret, self', w') \<Rightarrow> (ret, st_errors (events_since w w'))) =
   (case fst (wait (rate_limiter self) w) of
      Raised e \<Rightarrow> (JNull, [Error_generating e])
    | Returned _ \<Rightarrow>
        (case model (prompt_text prompt) of
           Returned response_text \<Rightarrow>
             (case extract_schema parse_float response_text of
                Some document \<Rightarrow> (document, [])
              | None \<Rightarrow> (JNull, [Could_not_parse]))
         | Raised (BlockedPromptException m) \<Rightarrow> (JNull, [Prompt_blocked m])
         | Raised JSONDecodeError \<Rightarrow> (JNull, [Could_not_parse])
         | Raised e \<Rightarrow> (JNull, [Error_generating e])))"
proof -
  obtain r rl w1 where wt: "wait (rate_limiter self) w = (r, rl, w1)"
    by (cases "wait (rate_limiter self) w") auto
  show ?thesis
  proof (cases r)
    case (Raised e)
    with wt wait_Raised [of "rate_limiter self" w e rl w1]
    obtain es where "e = IndexError" "trace w1 = trace w @ es" "st_errors es = []"
      by auto
    with wt Raised show ?thesis
      by (simp add: generate_schema_def generate_schema_try_def events_since_def trace_emit
          st_errors_append)
  next
    case (Returned u)
    with wt wait_Returned [of "rate_limiter self" w u rl w1]
    obtain pre where tr: "trace w1 = trace w @ pre @ [Append (clock w), Lock_release]"
      and "st_errors pre = []"
      by auto
    with wt Returned show ?thesis
      by (simp add: generate_schema_def generate_schema_try_def events_since_def trace_emit
          st_errors_append Let_def split: result.splits exn.splits option.splits)
  qed
qed

text \<open>
  C9: when the body of \<open>generate_schema\<close> raises (blocked prompt, parse failure, any other
  exception), the button handler of \<open>run\<close> leaves the table \<open>schemas\<close> as it was.
\<close>

theorem C9_no_record_on_failure:
  assumes "fst (generate_schema_try parse_float model g p w) = Raised e"
  shows "db (snd (run_generate parse_float float_repr is_zero uuid4 model (Some g) p w)) = db w"
proof -
  obtain r rl w1 where wt: "wait (rate_limiter g) w = (r, rl, w1)"
    by (cases "wait (rate_limiter g) w") auto
  then have "db w1 = db w" by (simp add: wait_db)
  with assms wt show ?thesis
    by (auto simp: run_generate_def generate_schema_def generate_schema_try_def truthy_def
        emit_def Let_def split: result.splits exn.splits option.splits prod.splits)
qed

theorem C9_no_record_on_failure_witness:
  "fst (generate_schema_try (\<lambda>s. Finite s) (\<lambda>p. Returned (str ''not json at all''))
          SchemaGenerator_init (str ''a table of users'')
          \<lparr>clock = 5, trace = [], db = [], uuid_count = 0\<rparr>) = Raised JSONDecodeError \<and>
   db (snd (run_generate (\<lambda>s. Finite s) (\<lambda>x. x) (\<lambda>x. False) (\<lambda>n. [n])
              (\<lambda>p. Returned (str ''not json at all'')) (Some SchemaGenerator_init)
              (str ''a table of users'')
              \<lparr>clock = 5, trace = [], db = [], uuid_count = 0\<rparr>)) = []"
proof -
  have e: "extract_schema (\<lambda>s. Finite s) (str ''not json at all'') = None"
    by (simp add: extract_schema_def json_loads_def skip_ws_def is_ws_def match_number_def
        match_integer_def match_here_def str_def)
  have t: "fst (generate_schema_try (\<lambda>s. Finite s) (\<lambda>p. Returned (str ''not json at all''))
          SchemaGenerator_init (str ''a table of users'')
          \<lparr>clock = 5, trace = [], db = [], uuid_count = 0\<rparr>) = Raised JSONDecodeError"
    by (simp add: generate_schema_try_def e wait_def Let_def SchemaGenerator_init_def
        RateLimiter_init_def emit_def)
  from t C9_no_record_on_failure [of "\<lambda>s. Finite s" "\<lambda>p. Returned (str ''not json at all'')"
      SchemaGenerator_init "str ''a table of users''"
      "\<lparr>clock = 5, trace = [], db = [], uuid_count = 0\<rparr>" JSONDecodeError
      "\<lambda>x. x" "\<lambda>x. False" "\<lambda>n. [n]"]
  show ?thesis by simp
qed

text \<open>
  C10: with a positive quota, one call of \<open>generate_schema\<close> appends exactly one instant to
  the deque of the limiter, the instant read at the entry of \<open>wait\<close>; the append precedes
  the outbound call, and nothing that follows (a failure included) appends or removes.
\<close>

theorem C10_one_timestamp_per_call:
  assumes "0 < max_requests (rate_limiter self)"
    and "generate_schema parse_float model self prompt w = (ret, self', w')"
  shows "request_times (rate_limiter self') =
           snd (popleft_while (clock w) (time_frame (rate_limiter self))
                  (request_times (rate_limiter self))) @ [clock w] \<and>
         (\<exists>pre post.
            events_since w w' =
              pre @ [Append (clock w), Lock_release, Generate_content (prompt_text prompt)] @ post \<and>
            appends pre = [] \<and> appends post = [])"
proof -
  from assms(1) obtain rl w1 where wt: "wait (rate_limiter self) w = (Returned (), rl, w1)"
    using wait_positive by blast
  from wait_Returned [OF wt]
  obtain pre where tr: "trace w1 = trace w @ pre @ [Append (clock w), Lock_release]"
    and ap: "appends pre = []"
    and rt: "request_times rl =
      snd (popleft_while (clock w) (time_frame (rate_limiter self))
             (request_times (rate_limiter self))) @ [clock w]"
    by auto
  have "\<exists>post. self' = self\<lparr>rate_limiter := rl\<rparr> \<and>
          trace w' = trace w1 @ Generate_content (prompt_text prompt) # post \<and> appends post = []"
    using assms(2) wt
    by (auto simp: generate_schema_def generate_schema_try_def trace_emit Let_def
        split: result.splits exn.splits option.splits)
  then obtain post where s: "self' = self\<lparr>rate_limiter := rl\<rparr>"
    and tr': "trace w' = trace w1 @ Generate_content (prompt_text prompt) # post"
    and ap': "appends post = []" by blast
  from s rt have "request_times (rate_limiter self') =
      snd (popleft_while (clock w) (time_frame (rate_limiter self))
             (request_times (rate_limiter self))) @ [clock w]" by simp
  moreover from tr tr' have "events_since w w' =
      pre @ [Append (clock w), Lock_release, Generate_content (prompt_text prompt)] @ post"
    by (simp add: events_since_def)
  ultimately show ?thesis using ap ap' by blast
qed

theorem C10_one_timestamp_per_call_witness:
  "(0::int) < max_requests (rate_limiter
      \<lparr>rate_limiter = \<lparr>max_requests = 1, time_frame = 10, request_times = [0]\<rparr>\<rparr>) \<and>
   request_times (rate_limiter (fst (snd
     (generate_schema (\<lambda>s. Finite s) (\<lambda>p. Raised (Exception (str ''timeout'')))
        \<lparr>rate_limiter = \<lparr>max_requests = 1, time_frame = 10, request_times = [0]\<rparr>\<rparr>
        (str ''users'') \<lparr>clock = 1, trace = []\<rparr>)))) = [0, 1]"
  using C10_one_timestamp_per_call
    [of "\<lparr>rate_limiter = \<lparr>max_requests = 1, time_frame = 10, request_times = [0]\<rparr>\<rparr>"
        "\<lambda>s. Finite s" "\<lambda>p. Raised (Exception (str ''timeout''))" "str ''users''"
        "\<lparr>clock = 1, trace = []\<rparr>"
        "fst (generate_schema (\<lambda>s. Finite s) (\<lambda>p. Raised (Exception (str ''timeout'')))
        \<lparr>rate_limiter = \<lparr>max_requests = 1, time_frame = 10, request_times = [0]\<rparr>\<rparr>
        (str ''users'') \<lparr>clock = 1, trace = []\<rparr>)"
        "fst (snd (generate_schema (\<lambda>s. Finite s) (\<lambda>p. Raised (Exception (str ''timeout'')))
        \<lparr>rate_limiter = \<lparr>max_requests = 1, time_frame = 10, request_times = [0]\<rparr>\<rparr>
        (str ''users'') \<lparr>clock = 1, trace = []\<rparr>))"
        "snd (snd (generate_schema (\<lambda>s. Finite s) (\<lambda>p. Raised (Exception (str ''timeout'')))
        \<lparr>rate_limiter = \<lparr>max_requests = 1, time_frame = 10, request_times = [0]\<rparr>\<rparr>
        (str ''users'') \<lparr>clock = 1, trace = []\<rparr>))"]
  by simp

section \<open>Properties of the upload\<close>

lemmas json_eval =
  json_loads_def skip_ws_def is_ws_def match_number_def match_integer_def match_frac_def
  match_exp_def is_digit_def str_def parse_int_def nat_of_digits_def dict_def dict_set_def
  with_char_def BACKSLASH_def Let_def

lemma upload_loop_spec:
  "upload_loop pf fr uuid4 fs succ failed w = (succ', failed', w') \<Longrightarrow>
     map filename succ' = map filename succ @ map name (accepted pf fs) \<and>
     map upload_schema succ' = map upload_schema succ @ map (\<lambda>f. the (file_schema pf f)) (accepted pf fs) \<and>
     map fst failed' = map fst failed @ map name (rejected pf fs) \<and>
     trace w' = trace w \<and>
     (\<exists>rows. db w' = db w @ rows \<and>
        map prompt_col rows = map (\<lambda>f. str ''Uploaded: '' @ name f) (accepted pf fs) \<and>
        map schema_col rows = map (\<lambda>f. json_dumps fr None (the (file_schema pf f))) (accepted pf fs))"
proof (induction fs arbitrary: succ failed w)
  case Nil
  then show ?case by (simp add: accepted_def rejected_def)
next
  case (Cons f fs)
  show ?case
  proof (cases "file_schema pf f")
    case None
    then obtain err where
      "upload_loop pf fr uuid4 fs succ (failed @ [(name f, err)]) w = (succ', failed', w')"
      using Cons.prems by (auto simp: file_schema_def split: option.splits)
    from Cons.IH [OF this] None show ?thesis
      by (simp add: accepted_def rejected_def)
  next
    case (Some schema)
    then obtain sid w1 where ins: "insert_schema uuid4 fr (str ''Uploaded: '' @ name f) schema w = (sid, w1)"
      and loop: "upload_loop pf fr uuid4 fs
                  (succ @ [\<lparr>filename = name f, upload_id = sid, upload_schema = schema\<rparr>]) failed w1
                 = (succ', failed', w')"
      using Cons.prems by (auto simp: file_schema_def split: option.splits prod.splits)
    from ins have w1: "trace w1 = trace w"
      "db w1 = db w @ [\<lparr>id_col = sid, prompt_col = str ''Uploaded: '' @ name f,
                        schema_col = json_dumps fr None schema, created_at_col = clock w\<rparr>]"
      by (auto simp: insert_schema_def Let_def)
    from Cons.IH [OF loop] obtain rows where
      a: "map filename succ' = map filename succ @ name f # map name (accepted pf fs)"
      and b: "map upload_schema succ' = map upload_schema succ @ schema # map (\<lambda>f. the (file_schema pf f)) (accepted pf fs)"
      and c: "map fst failed' = map fst failed @ map name (rejected pf fs)"
      and d: "trace w' = trace w1"
      and e: "db w' = db w1 @ rows"
      and f: "map prompt_col rows = map (\<lambda>f. str ''Uploaded: '' @ name f) (accepted pf fs)"
      and g: "map schema_col rows = map (\<lambda>f. json_dumps fr None (the (file_schema pf f))) (accepted pf fs)"
      by auto
    from a b c d e f g w1 Some show ?thesis
      by (simp add: accepted_def rejected_def)
  qed
qed

text \<open>
  C7: in a batch of any length every file is handled on its own. The files that decode and
  parse are the successful uploads, in order, and each adds one row to the table, with
  the prompt \<open>Uploaded: <name>\<close> and the serialised document; the others are the failed
  uploads, reported by name; the rows already in the table stay. The feedback shown
  counts both groups and names each failed file. For three files of which the second is
  not JSON this gives two rows, for the first and the third file, and one failure naming
  the second.
\<close>

theorem C7_failures_isolated:
  assumes "upload_schema_files pf fr uuid4 files w = (successful, failed, w')"
  shows "map filename successful = map name (accepted pf files) \<and>
         map fst failed = map name (rejected pf files) \<and>
         (\<exists>rows. db w' = db w @ rows \<and>
            map prompt_col rows = map (\<lambda>f. str ''Uploaded: '' @ name f) (accepted pf files) \<and>
            map schema_col rows =
              map (\<lambda>f. json_dumps fr None (the (file_schema pf f))) (accepted pf files)) \<and>
         events_since w w' =
           (if successful = [] then [] else [St_success (Files_uploaded (length successful))]) @
           (if failed = [] then []
            else St_warning (Files_failed (length failed)) #
                 map (\<lambda>(fname, err). St_error (File_error fname err)) failed)"
proof -
  obtain w1 where loop: "upload_loop pf fr uuid4 files [] [] w = (successful, failed, w1)"
    and w': "w' = (let w2 = (if successful \<noteq> []
                     then emit [St_success (Files_uploaded (length successful))] w1
                     else w1)
               in (if failed \<noteq> []
                     then emit (St_warning (Files_failed (length failed)) #
                                map (\<lambda>(fname, err). St_error (File_error fname err)) failed)
                            w2
                     else w2))"
    using assms by (auto simp: upload_schema_files_def Let_def split: prod.splits)
  from upload_loop_spec [OF loop] have
    "map filename successful = map name (accepted pf files)"
    "map fst failed = map name (rejected pf files)"
    "trace w1 = trace w"
    "\<exists>rows. db w1 = db w @ rows \<and>
        map prompt_col rows = map (\<lambda>f. str ''Uploaded: '' @ name f) (accepted pf files) \<and>
        map schema_col rows = map (\<lambda>f. json_dumps fr None (the (file_schema pf f))) (accepted pf files)"
    by auto
  moreover have "db w' = db w1" "trace w' = trace w1 @
           (if successful = [] then [] else [St_success (Files_uploaded (length successful))]) @
           (if failed = [] then []
            else St_warning (Files_failed (length failed)) #
                 map (\<lambda>(fname, err). St_error (File_error fname err)) failed)"
    unfolding w' by (auto simp: emit_def Let_def)
  ultimately show ?thesis
    by (simp add: events_since_def)
qed

theorem C7_failures_isolated_witness:
  \<open>(case upload_schema_files (\<lambda>s. Finite s) (\<lambda>x. x) (\<lambda>n. [n])
           [\<lparr>name = str ''a.json'', getvalue = ''{"a":1}''\<rparr>,
            \<lparr>name = str ''b.json'', getvalue = ''not json''\<rparr>,
            \<lparr>name = str ''c.json'', getvalue = ''[1,2]''\<rparr>]
           \<lparr>clock = 0, trace = [], db = [], uuid_count = 0\<rparr> of
      (successful, failed, w') \<Rightarrow>
        map filename successful = [str ''a.json'', str ''c.json''] \<and>
        map fst failed = [str ''b.json''] \<and>
        map prompt_col (db w') = [str ''Uploaded: a.json'', str ''Uploaded: c.json''] \<and>
        map schema_col (db w') = [str ''{"a": 1}'', str ''[1, 2]''])\<close>
proof -
  let ?pf = "(\<lambda>s. Finite s) :: pystr \<Rightarrow> pystr pyfloat"
  let ?f1 = \<open>\<lparr>name = str ''a.json'', getvalue = ''{"a":1}''\<rparr>\<close>
  let ?f2 = \<open>\<lparr>name = str ''b.json'', getvalue = ''not json''\<rparr>\<close>
  let ?f3 = \<open>\<lparr>name = str ''c.json'', getvalue = ''[1,2]''\<rparr>\<close>
  let ?w = "\<lparr>clock = 0, trace = [], db = [], uuid_count = 0\<rparr>"
  have s1: \<open>file_schema ?pf ?f1 = Some (JDict [(str ''a'', JInt 1)])\<close>
    by (simp add: file_schema_def bytes_decode_def with_cp_def json_eval)
  have s2: \<open>file_schema ?pf ?f2 = None\<close>
    by (simp add: file_schema_def bytes_decode_def with_cp_def json_eval)
  have s3: \<open>file_schema ?pf ?f3 = Some (JList [JInt 1, JInt 2])\<close>
    by (simp add: file_schema_def bytes_decode_def with_cp_def json_eval)
  have a: "accepted ?pf [?f1, ?f2, ?f3] = [?f1, ?f3]"
    by (simp add: accepted_def s1 s2 s3)
  have r: "rejected ?pf [?f1, ?f2, ?f3] = [?f2]"
    by (simp add: rejected_def s1 s2 s3)
  have d1: \<open>json_dumps (\<lambda>x. x) None (JDict [(str ''a'', JInt 1)] :: pystr json) = str ''{"a": 1}''\<close>
    by (simp add: json_dumps_def encode_basestring_ascii_def escape_char_def int_repr_def
        nat_repr.simps newline_indent_def item_separator_def str_def)
  have d3: \<open>json_dumps (\<lambda>x. x) None (JList [JInt 1, JInt 2] :: pystr json) = str ''[1, 2]''\<close>
    by (simp add: json_dumps_def int_repr_def nat_repr.simps newline_indent_def
        item_separator_def str_def)
  obtain successful failed w' where
    u: "upload_schema_files ?pf (\<lambda>x. x) (\<lambda>n. [n]) [?f1, ?f2, ?f3] ?w = (successful, failed, w')"
    by (cases "upload_schema_files ?pf (\<lambda>x. x) (\<lambda>n. [n]) [?f1, ?f2, ?f3] ?w") auto
  from C7_failures_isolated [OF u] a r s1 s3 d1 d3 show ?thesis
    unfolding u by (auto simp: str_def)
qed

section \<open>Properties of the extraction\<close>

lemmas scan_simps =
  scan_once.simps JSONObject.simps object_pairs.simps JSONArray.simps array_values.simps




lemma steps_refl: "steps st s st s"
  by (simp add: steps_def)


lemma steps_take: "lexer st (take n s) = Some st' \<Longrightarrow> steps st s st' (drop n s)"
  unfolding steps_def by (metis append_take_drop_id)















lemma steps_literal:
  "take n s = lit \<Longrightarrow> lexer Outside lit = Some Outside \<Longrightarrow> steps Outside s Outside (drop n s)"
  by (simp add: steps_take)











section \<open>Properties of the export\<close>

lemma hex_arith:
  assumes n: "(n::nat) < 0x10000"
  shows "((n div 4096 mod 16 * 16 + n div 256 mod 16) * 16 + n div 16 mod 16) * 16 + n mod 16 = n"
proof -
  have q: "n div 256 = n div 16 div 16" "n div 4096 = n div 16 div 16 div 16"
    by (simp_all add: div_mult2_eq)
  have "n div 4096 < 16" using n by (simp add: div_less_iff_less_mult)
  then have m: "n div 16 div 16 div 16 mod 16 = n div 16 div 16 div 16" unfolding q by simp
  have "n div 16 div 16 div 16 * 16 + n div 16 div 16 mod 16 = n div 16 div 16"
    by (rule div_mult_mod_eq)
  moreover have "n div 16 div 16 * 16 + n div 16 mod 16 = n div 16" by (rule div_mult_mod_eq)
  moreover have "n div 16 * 16 + n mod 16 = n" by (rule div_mult_mod_eq)
  ultimately show ?thesis unfolding q m by simp
qed

lemma s1_bounds:
  "0xD800 + ((c - 0x10000) div 0x400) mod 0x400 < (0x10000::nat)"
  "(0xD800::nat) \<le> 0xD800 + ((c - 0x10000) div 0x400) mod 0x400"
  "0xD800 + ((c - 0x10000) div 0x400) mod 0x400 \<le> (0xDBFF::nat)"
proof -
  have "((c - 0x10000) div 0x400) mod 0x400 < (0x400::nat)" by (rule mod_less_divisor) simp
  then show "0xD800 + ((c - 0x10000) div 0x400) mod 0x400 < (0x10000::nat)"
    "0xD800 + ((c - 0x10000) div 0x400) mod 0x400 \<le> (0xDBFF::nat)" by linarith+
  show "(0xD800::nat) \<le> 0xD800 + ((c - 0x10000) div 0x400) mod 0x400" by simp
qed

lemma s2_bounds:
  "0xDC00 + (c - 0x10000) mod 0x400 < (0x10000::nat)"
  "(0xDC00::nat) \<le> 0xDC00 + (c - 0x10000) mod 0x400"
  "0xDC00 + (c - 0x10000) mod 0x400 \<le> (0xDFFF::nat)"
proof -
  have "(c - 0x10000) mod 0x400 < (0x400::nat)" by (rule mod_less_divisor) simp
  then show "0xDC00 + (c - 0x10000) mod 0x400 < (0x10000::nat)"
    "0xDC00 + (c - 0x10000) mod 0x400 \<le> (0xDFFF::nat)" by linarith+
  show "(0xDC00::nat) \<le> 0xDC00 + (c - 0x10000) mod 0x400" by simp
qed

lemma astral_arith:
  assumes "(0x10000::nat) \<le> c" and "c < 0x110000"
  shows "0x10000 + ((0xD800 + ((c - 0x10000) div 0x400) mod 0x400 - 0xD800) * 0x400 +
           (0xDC00 + (c - 0x10000) mod 0x400 - 0xDC00)) = c"
proof -
  have "c - 0x10000 < 0x100000" using assms by linarith
  then have "(c - 0x10000) div 0x400 < 0x400" by (simp add: div_less_iff_less_mult)
  then have m: "((c - 0x10000) div 0x400) mod 0x400 = (c - 0x10000) div 0x400" by simp
  have "(c - 0x10000) div 0x400 * 0x400 + (c - 0x10000) mod 0x400 = c - 0x10000"
    by (rule div_mult_mod_eq)
  then show ?thesis unfolding m using assms(1) by simp
qed

lemma hex_value_hex_digit: "d < 16 \<Longrightarrow> hex_value (hex_digit d) = Some d"
  by (auto simp: hex_value_def hex_digit_def)

lemma decode_hex4: "n < 0x10000 \<Longrightarrow> decode_uXXXX (hex4 n @ t) = Some n"
proof -
  assume n: "n < 0x10000"
  have a: "((n div 4096 mod 16 * 16 + n div 256 mod 16) * 16 + n div 16 mod 16) * 16 + n mod 16 = n"
    using n by (rule hex_arith)
  have "decode_uXXXX (hex4 n @ t) =
          Some (((n div 4096 mod 16 * 16 + n div 256 mod 16) * 16 + n div 16 mod 16) * 16 + n mod 16)"
    by (simp add: decode_uXXXX_def hex4_def hex_value_hex_digit)
  then show ?thesis by (simp only: a)
qed

lemma with_char_Some_eq: "with_char c (Some (y, r)) = Some (c # y, r)"
  by (simp add: with_char_def)

lemma scan_plain:
  "0x20 \<le> c \<Longrightarrow> c \<noteq> 0x22 \<Longrightarrow> c \<noteq> 0x5C \<Longrightarrow> scanstring (c # t) = with_char c (scanstring t)"
  by simp

lemma scan_u_bmp:
  assumes "c < 0x10000" and "high_surrogate c \<longrightarrow> nlf t"
  shows "scanstring ([0x5C, 0x75] @ hex4 c @ t) = with_char c (scanstring t)"
proof -
  have d: "decode_uXXXX (hex4 c @ t) = Some c" using assms(1) by (rule decode_hex4)
  have l: "drop 4 (hex4 c @ t) = t" "drop 6 (hex4 c @ t) = drop 2 t"
    "take 2 (drop 4 (hex4 c @ t)) = take 2 t"
    by (simp_all add: hex4_def)
  show ?thesis
  proof (cases "high_surrogate c \<and> take 2 t = [0x5C, 0x75]")
    case False
    then show ?thesis
      using d l by (auto simp: high_surrogate_def)
  next
    case True
    with assms(2) obtain u where "decode_uXXXX (drop 2 t) = Some u" "\<not> low_surrogate u"
      by (auto simp: nlf_def)
    with True show ?thesis
      using d l by (auto simp: high_surrogate_def low_surrogate_def)
  qed
qed

lemma hex4_drops:
  "drop 4 (hex4 a @ r) = r"
  "drop 6 (hex4 a @ p # q # r) = r"
  "drop 10 (hex4 a @ p # q # hex4 b @ r) = r"
  "take 2 (drop 4 (hex4 a @ p # q # r)) = [p, q]"
  by (simp_all add: hex4_def)

lemma scanstring_u:
  "scanstring (0x5C # 0x75 # cs1) =
     (case decode_uXXXX cs1 of
        None \<Rightarrow> None
      | Some uni \<Rightarrow>
          if 0xD800 \<le> uni \<and> uni \<le> 0xDBFF \<and> take 2 (drop 4 cs1) = [0x5C, 0x75] then
            (case decode_uXXXX (drop 6 cs1) of
               None \<Rightarrow> None
             | Some uni2 \<Rightarrow>
                 if 0xDC00 \<le> uni2 \<and> uni2 \<le> 0xDFFF
                 then with_char (0x10000 + ((uni - 0xD800) * 0x400 + (uni2 - 0xDC00)))
                        (scanstring (drop 10 cs1))
                 else with_char uni (scanstring (drop 4 cs1)))
          else with_char uni (scanstring (drop 4 cs1)))"
  by (subst scanstring.simps(2)) simp

lemma scan_pair:
  assumes "a < 0x10000" and "b < 0x10000" and "0xD800 \<le> a" and "a \<le> 0xDBFF"
    and "0xDC00 \<le> b" and "b \<le> 0xDFFF"
  shows "scanstring (0x5C # 0x75 # hex4 a @ 0x5C # 0x75 # hex4 b @ t)
         = with_char (0x10000 + ((a - 0xD800) * 0x400 + (b - 0xDC00))) (scanstring t)"
proof -
  have d1: "decode_uXXXX (hex4 a @ 0x5C # 0x75 # hex4 b @ t) = Some a"
    using assms(1) by (rule decode_hex4)
  have d2: "decode_uXXXX (hex4 b @ t) = Some b"
    using assms(2) by (rule decode_hex4)
  have t2: "take 2 (drop 4 (hex4 a @ 0x5C # 0x75 # hex4 b @ t)) = [0x5C, 0x75]"
    by (rule hex4_drops(4))
  have d6: "drop 6 (hex4 a @ 0x5C # 0x75 # hex4 b @ t) = hex4 b @ t"
    by (rule hex4_drops(2))
  have d10: "drop 10 (hex4 a @ 0x5C # 0x75 # hex4 b @ t) = t"
    by (rule hex4_drops(3))
  show ?thesis
    by (simp only: scanstring_u d1 t2 d6 d2 d10 option.case assms(3-6) simp_thms if_True)
qed

lemma scan_u_astral:
  assumes "0x10000 \<le> c" and "c < 0x110000"
  shows "scanstring ([0x5C, 0x75] @ hex4 (0xD800 + ((c - 0x10000) div 0x400) mod 0x400) @
                     [0x5C, 0x75] @ hex4 (0xDC00 + (c - 0x10000) mod 0x400) @ t)
         = with_char c (scanstring t)"
proof -
  note s1 = s1_bounds [of c]
  note s2 = s2_bounds [of c]
  note v = astral_arith [OF assms]
  from scan_pair [OF s1(1) s2(1) s1(2,3) s2(2,3), of t]
  show ?thesis by (simp only: v append_Cons append_Nil)
qed

lemma scan_escape_char:
  assumes "c < 0x110000" and "high_surrogate c \<longrightarrow> nlf t"
  shows "scanstring (escape_char c @ t) = with_char c (scanstring t)"
proof -
  consider (two) "c = 0x5C \<or> c = 0x22 \<or> c = 0x08 \<or> c = 0x0C \<or> c = 0x0A \<or> c = 0x0D \<or> c = 0x09"
    | (plain) "\<not> (c = 0x5C \<or> c = 0x22 \<or> c = 0x08 \<or> c = 0x0C \<or> c = 0x0A \<or> c = 0x0D \<or> c = 0x09)"
        "0x20 \<le> c \<and> c \<le> 0x7E"
    | (bmp) "\<not> (c = 0x5C \<or> c = 0x22 \<or> c = 0x08 \<or> c = 0x0C \<or> c = 0x0A \<or> c = 0x0D \<or> c = 0x09)"
        "\<not> (0x20 \<le> c \<and> c \<le> 0x7E)" "c < 0x10000"
    | (astral) "\<not> (c = 0x5C \<or> c = 0x22 \<or> c = 0x08 \<or> c = 0x0C \<or> c = 0x0A \<or> c = 0x0D \<or> c = 0x09)"
        "\<not> (0x20 \<le> c \<and> c \<le> 0x7E)" "\<not> c < 0x10000"
    by blast
  then show ?thesis
  proof cases
    case two
    then show ?thesis
      by (elim disjE) (simp_all add: escape_char_def BACKSLASH_def)
  next
    case plain
    then show ?thesis by (simp add: escape_char_def)
  next
    case bmp
    then have "escape_char c = [0x5C, 0x75] @ hex4 c" by (simp add: escape_char_def)
    then show ?thesis using scan_u_bmp [OF bmp(3) assms(2)] by simp
  next
    case astral
    then have "escape_char c = [0x5C, 0x75] @ hex4 (0xD800 + ((c - 0x10000) div 0x400) mod 0x400) @
                     [0x5C, 0x75] @ hex4 (0xDC00 + (c - 0x10000) mod 0x400)"
      by (simp add: escape_char_def Let_def)
    then show ?thesis using scan_u_astral [of c t] astral(3) assms(1) by simp
  qed
qed

lemma nlf_quote: "nlf (0x22 # rest)"
  by (simp add: nlf_def)

lemma nlf_escape_char:
  assumes "d < 0x110000" and "\<not> low_surrogate d"
  shows "nlf (escape_char d @ t)"
proof -
  consider (two) "d = 0x5C \<or> d = 0x22 \<or> d = 0x08 \<or> d = 0x0C \<or> d = 0x0A \<or> d = 0x0D \<or> d = 0x09"
    | (plain) "\<not> (d = 0x5C \<or> d = 0x22 \<or> d = 0x08 \<or> d = 0x0C \<or> d = 0x0A \<or> d = 0x0D \<or> d = 0x09)"
        "0x20 \<le> d \<and> d \<le> 0x7E"
    | (bmp) "\<not> (d = 0x5C \<or> d = 0x22 \<or> d = 0x08 \<or> d = 0x0C \<or> d = 0x0A \<or> d = 0x0D \<or> d = 0x09)"
        "\<not> (0x20 \<le> d \<and> d \<le> 0x7E)" "d < 0x10000"
    | (astral) "\<not> (d = 0x5C \<or> d = 0x22 \<or> d = 0x08 \<or> d = 0x0C \<or> d = 0x0A \<or> d = 0x0D \<or> d = 0x09)"
        "\<not> (0x20 \<le> d \<and> d \<le> 0x7E)" "\<not> d < 0x10000"
    by blast
  then show ?thesis
  proof cases
    case two
    then show ?thesis by (elim disjE) (simp_all add: escape_char_def nlf_def)
  next
    case plain
    then show ?thesis by (simp add: escape_char_def nlf_def)
  next
    case bmp
    then have "escape_char d = [0x5C, 0x75] @ hex4 d" by (simp add: escape_char_def)
    then show ?thesis using decode_hex4 [OF bmp(3), of t] assms(2) by (simp add: nlf_def)
  next
    case astral
    let ?s1 = "0xD800 + ((d - 0x10000) div 0x400) mod 0x400"
    from astral have e: "escape_char d = [0x5C, 0x75] @ hex4 ?s1 @
                     [0x5C, 0x75] @ hex4 (0xDC00 + (d - 0x10000) mod 0x400)"
      by (simp add: escape_char_def Let_def)
    have "?s1 < 0x10000" by (rule s1_bounds)
    from decode_hex4 [OF this] have "decode_uXXXX (hex4 ?s1 @ [0x5C, 0x75] @ hex4 (0xDC00 + (d - 0x10000) mod 0x400) @ t) = Some ?s1" .
    moreover have "\<not> low_surrogate ?s1" using s1_bounds(3) [of d] by (simp add: low_surrogate_def)
    ultimately show ?thesis unfolding e by (simp add: nlf_def)
  qed
qed

lemma scanstring_escaped:
  "str_ok s \<Longrightarrow> scanstring (concat (map escape_char s) @ 0x22 # rest) = Some (s, rest)"
proof (induction s rule: str_ok.induct)
  case 1
  then show ?case by simp
next
  case (2 c)
  then have "scanstring (escape_char c @ 0x22 # rest) = with_char c (scanstring (0x22 # rest))"
    by (intro scan_escape_char) (simp_all add: nlf_quote)
  then show ?case by (simp add: with_char_def)
next
  case (3 c d cs)
  then have ok: "c < 0x110000" "\<not> (high_surrogate c \<and> low_surrogate d)" "str_ok (d # cs)"
    by simp_all
  from ok(3) have d: "d < 0x110000" by (cases cs) simp_all
  let ?t = "concat (map escape_char (d # cs)) @ 0x22 # rest"
  have "high_surrogate c \<longrightarrow> nlf ?t"
    using nlf_escape_char [OF d, of "concat (map escape_char cs) @ 0x22 # rest"] ok(2) by auto
  with ok(1) have "scanstring (escape_char c @ ?t) = with_char c (scanstring ?t)"
    by (rule scan_escape_char)
  with "3.IH" [OF ok(3)] show ?case by (simp add: with_char_def)
qed

lemma delimited_not_digit: "delimited rest \<Longrightarrow> takeWhile is_digit rest = []"
  by (cases rest) (auto simp: delimited_def is_digit_def)

lemma digits_append:
  assumes "delimited rest"
  shows "takeWhile is_digit (r @ rest) = takeWhile is_digit r"
    and "dropWhile is_digit (r @ rest) = dropWhile is_digit r @ rest"
proof -
  have t: "takeWhile is_digit rest = []" using assms by (rule delimited_not_digit)
  then have d: "dropWhile is_digit rest = rest"
    by (metis append_Nil takeWhile_dropWhile_id)
  show "takeWhile is_digit (r @ rest) = takeWhile is_digit r"
    using t by (induction r) auto
  show "dropWhile is_digit (r @ rest) = dropWhile is_digit r @ rest"
    using d by (induction r) auto
qed

lemma match_integer_append:
  assumes "match_integer s = Some (i, r)" and "delimited rest"
  shows "match_integer (s @ rest) = Some (i, r @ rest)"
proof -
  from assms(1) obtain c t where s: "s = c # t"
    by (cases s) (auto simp: match_integer_def)
  show ?thesis
  proof (cases "c = 0x2D")
    case True
    with assms(1) s obtain d r0 where t: "t = d # r0"
      by (cases t) (auto simp: match_integer_def)
    with assms(1) s True digits_append [OF assms(2), of r0] show ?thesis
      by (auto simp: match_integer_def split: if_splits)
  next
    case False
    with assms(1) s digits_append [OF assms(2), of t] show ?thesis
      by (auto simp: match_integer_def split: if_splits)
  qed
qed

lemma match_frac_append:
  assumes "match_frac s = (f, r)" and "delimited rest"
  shows "match_frac (s @ rest) = (f, r @ rest)"
proof (cases s)
  case Nil
  with assms show ?thesis
    by (cases rest) (auto simp: match_frac_def delimited_def)
next
  case (Cons c r0)
  with assms(1) digits_append [OF assms(2), of r0] show ?thesis
    by (auto simp: match_frac_def split: if_splits)
qed

lemma match_exp_append:
  assumes "match_exp s = (e, r)" and "delimited rest"
  shows "match_exp (s @ rest) = (e, r @ rest)"
proof (cases s)
  case Nil
  with assms show ?thesis
    by (cases rest) (auto simp: match_exp_def delimited_def)
next
  case (Cons c r0)
  show ?thesis
  proof (cases r0)
    case Nil
    with Cons assms(1) delimited_not_digit [OF assms(2)] assms(2) show ?thesis
      by (cases rest) (auto simp: match_exp_def Let_def delimited_def split: if_splits)
  next
    case (Cons d r1)
    with \<open>s = c # r0\<close> assms(1) digits_append [OF assms(2), of r1]
      digits_append [OF assms(2), of "d # r1"] show ?thesis
      by (auto simp: match_exp_def Let_def split: if_splits)
  qed
qed

lemma match_number_append:
  assumes "match_number s = Some (tok, r)" and "delimited rest"
  shows "match_number (s @ rest) = Some (tok, r @ rest)"
proof -
  from assms(1) obtain i r0 f r1 e where
    a: "match_integer s = Some (i, r0)" and b: "match_frac r0 = (f, r1)"
    and c: "match_exp r1 = (e, r)" and t: "tok = (i, f, e)"
    by (auto simp: match_number_def split: option.splits prod.splits)
  from match_integer_append [OF a assms(2)] match_frac_append [OF b assms(2)]
    match_exp_append [OF c assms(2)] t
  show ?thesis by (simp add: match_number_def)
qed

lemma match_integer_first:
  "match_integer s = Some (i, r) \<Longrightarrow> \<exists>c t. s = c # t \<and> (c = 0x2D \<or> is_digit c)"
  by (auto simp: match_integer_def Let_def is_digit_def split: list.splits if_splits)

lemma match_number_first:
  "match_number s = Some (tok, r) \<Longrightarrow> \<exists>c t. s = c # t \<and> (c = 0x2D \<or> is_digit c)"
  by (auto simp: match_number_def split: option.splits dest!: match_integer_first)

lemma scan_once_number:
  assumes "match_number s = Some ((i, f, e), r)"
  shows "scan_once pf s =
           (if f \<noteq> [] \<or> e \<noteq> [] then Some (JFloat (pf (i @ f @ e)), r)
            else Some (JInt (parse_int i), r))"
proof -
  from match_number_first [OF assms] obtain c t where s: "s = c # t"
    and c: "c = 0x2D \<or> is_digit c" by blast
  from c have n: "c \<noteq> 0x22" "c \<noteq> 0x7B" "c \<noteq> 0x5B" "c \<noteq> 0x6E" "c \<noteq> 0x74" "c \<noteq> 0x66"
    by (auto simp: is_digit_def)
  show ?thesis
    apply (subst scan_once.simps)
    using assms n unfolding s
    by (simp del: scan_simps)
qed

lemma scan_once_float:
  assumes "float_ok pf fr x" and "delimited rest"
  shows "scan_once pf (fr x @ rest) = Some (JFloat (Finite x), rest)"
proof -
  from assms(1) obtain i f e where m: "match_number (fr x) = Some ((i, f, e), [])"
    and fe: "f \<noteq> [] \<or> e \<noteq> []" and p: "pf (i @ f @ e) = Finite x"
    by (auto simp: float_ok_def split: option.splits)
  from match_number_append [OF m assms(2)]
  have "match_number (fr x @ rest) = Some ((i, f, e), rest)" by simp
  from scan_once_number [OF this, of pf] fe p show ?thesis by auto
qed

lemma nat_repr_shape:
  "(n = 0 \<longrightarrow> nat_repr n = [0x30]) \<and>
   (0 < n \<longrightarrow> (\<exists>d r. nat_repr n = d # r \<and> 0x31 \<le> d \<and> d \<le> 0x39 \<and> (\<forall>c \<in> set r. is_digit c)))"
proof (induction n rule: nat_repr.induct)
  case (1 n)
  show ?case
  proof (cases "n < 10")
    case True
    then have "nat_repr n = [0x30 + n]" by (subst nat_repr.simps) simp
    with True show ?thesis by auto
  next
    case False
    then have U: "nat_repr n = nat_repr (n div 10) @ [0x30 + n mod 10]"
      by (subst nat_repr.simps) simp
    from False have "0 < n div 10" by simp
    with "1.IH" False obtain d r where "nat_repr (n div 10) = d # r" "0x31 \<le> d" "d \<le> 0x39"
      "\<forall>c \<in> set r. is_digit c" by auto
    moreover have "is_digit (0x30 + n mod 10)" by (simp add: is_digit_def)
    ultimately show ?thesis using False unfolding U by auto
  qed
qed

lemma foldl_digits_snoc:
  "foldl (\<lambda>a d. 10 * a + (d - 0x30)) z (xs @ [d]) = 10 * foldl (\<lambda>a d. 10 * a + (d - 0x30)) z xs + (d - (0x30::nat))"
  by simp

lemma nat_of_digits_nat_repr: "nat_of_digits (nat_repr n) = n"
proof (induction n rule: nat_repr.induct)
  case (1 n)
  show ?case
  proof (cases "n < 10")
    case True
    then have "nat_repr n = [0x30 + n]" by (subst nat_repr.simps) simp
    then show ?thesis by (simp add: nat_of_digits_def)
  next
    case False
    then have U: "nat_repr n = nat_repr (n div 10) @ [0x30 + n mod 10]"
      by (subst nat_repr.simps) simp
    from "1.IH" False have "nat_of_digits (nat_repr (n div 10)) = n div 10" by simp
    then show ?thesis unfolding U
      by (simp add: nat_of_digits_def)
  qed
qed

lemma match_integer_nat_repr:
  "match_integer (nat_repr n) = Some (nat_repr n, [])"
proof (cases "n = 0")
  case True
  with nat_repr_shape [of n] show ?thesis by (simp add: match_integer_def)
next
  case False
  with nat_repr_shape [of n] obtain d r where s: "nat_repr n = d # r" "0x31 \<le> d" "d \<le> 0x39"
    "\<forall>c \<in> set r. is_digit c" by auto
  then have "takeWhile is_digit r = r" "dropWhile is_digit r = []" by simp_all
  with s show ?thesis by (auto simp: match_integer_def)
qed

lemma match_integer_int_repr:
  "match_integer (int_repr i) = Some (int_repr i, [])"
proof (cases "i < 0")
  case False
  then show ?thesis by (simp add: int_repr_def match_integer_nat_repr)
next
  case True
  then have "0 < nat (- i)" by simp
  with nat_repr_shape [of "nat (- i)"] obtain d r where s: "nat_repr (nat (- i)) = d # r"
    "0x31 \<le> d" "d \<le> 0x39" "\<forall>c \<in> set r. is_digit c" by auto
  then have "takeWhile is_digit r = r" "dropWhile is_digit r = []" by simp_all
  with s True show ?thesis by (auto simp: match_integer_def int_repr_def)
qed

lemma match_number_int_repr:
  "match_number (int_repr i) = Some ((int_repr i, [], []), [])"
  by (simp add: match_number_def match_integer_int_repr match_frac_def match_exp_def)

lemma parse_int_int_repr: "parse_int (int_repr i) = i"
proof (cases "i < 0")
  case True
  then show ?thesis
    by (simp add: parse_int_def int_repr_def nat_of_digits_nat_repr)
next
  case False
  from nat_repr_shape [of "nat i"] have "\<exists>d r. nat_repr (nat i) = d # r \<and> d \<noteq> 0x2D"
    by (cases "nat i = 0") auto
  then obtain d r where s: "nat_repr (nat i) = d # r" "d \<noteq> 0x2D" by blast
  have "nat_of_digits (d # r) = nat i" using nat_of_digits_nat_repr [of "nat i"] s by simp
  with s False show ?thesis by (simp add: parse_int_def int_repr_def)
qed

lemma scan_once_int:
  assumes "delimited rest"
  shows "scan_once pf (int_repr i @ rest) = Some (JInt i, rest)"
proof -
  from match_number_append [OF match_number_int_repr assms]
  have "match_number (int_repr i @ rest) = Some ((int_repr i, [], []), rest)" by simp
  from scan_once_number [OF this, of pf] show ?thesis by (simp add: parse_int_int_repr)
qed

lemma scan_once_string:
  assumes "str_ok s"
  shows "scan_once pf (encode_basestring_ascii s @ rest) = Some (JStr s, rest)"
  apply (subst scan_once.simps)
  using scanstring_escaped [OF assms, of rest]
  by (simp del: scan_simps scanstring.simps add: encode_basestring_ascii_def)

lemma scan_once_literals:
  "scan_once pf (str ''null'' @ rest) = Some (JNull, rest)"
  "scan_once pf (str ''true'' @ rest) = Some (JBool True, rest)"
  "scan_once pf (str ''false'' @ rest) = Some (JBool False, rest)"
  "scan_once pf (str ''NaN'' @ rest) = Some (JFloat NaN, rest)"
  "scan_once pf (str ''Infinity'' @ rest) = Some (JFloat PosInf, rest)"
  "scan_once pf (str ''-Infinity'' @ rest) = Some (JFloat NegInf, rest)"
  by (subst scan_once.simps,
      simp del: scan_simps add: str_def match_number_def match_integer_def)+

lemma dict_set_fresh: "k \<notin> fst ` set d \<Longrightarrow> dict_set d k v = d @ [(k, v)]"
  by (simp add: dict_set_def)

lemma foldl_dict_set:
  "distinct (map fst (acc @ ps)) \<Longrightarrow>
   foldl (\<lambda>d (k, v). dict_set d k v) acc ps = acc @ ps"
proof (induction ps arbitrary: acc)
  case Nil
  then show ?case by simp
next
  case (Cons p ps)
  obtain k v where p: "p = (k, v)" by (cases p)
  from Cons.prems have "k \<notin> fst ` set acc" unfolding p by auto
  then have "dict_set acc k v = acc @ [(k, v)]" by (rule dict_set_fresh)
  moreover from Cons.prems have "distinct (map fst ((acc @ [(k, v)]) @ ps))" unfolding p by simp
  ultimately show ?case using Cons.IH [of "acc @ [(k, v)]"] unfolding p by simp
qed

lemma dict_distinct: "distinct (map fst ps) \<Longrightarrow> dict ps = ps"
  using foldl_dict_set [of "[]" ps] by (simp add: dict_def)

lemma ws_newline_indent: "\<forall>c \<in> set (newline_indent indent level). is_ws c"
  by (auto simp: newline_indent_def is_ws_def split: option.splits)

lemma skip_ws_pad:
  "\<forall>c \<in> set pad. is_ws c \<Longrightarrow> \<not> is_ws c \<Longrightarrow> skip_ws (pad @ c # t) = c # t"
  by (induction pad) (auto simp: skip_ws_def)

lemma delimited_close:
  "c = 0x5D \<or> c = 0x7D \<Longrightarrow> delimited (newline_indent indent level @ c # rest)"
  by (auto simp: delimited_def newline_indent_def split: option.splits)

lemma item_separator_shape:
  "\<exists>pad. item_separator indent = 0x2C # pad \<and> (\<forall>c \<in> set pad. is_ws c)"
  by (auto simp: item_separator_def is_ws_def split: option.splits)

lemma first_char:
  assumes "wellformed pf fr v"
  shows "\<exists>c t. iterencode fr indent level v = c # t \<and> \<not> is_ws c \<and> c \<noteq> 0x5D"
proof (cases v)
  case JNull
  then show ?thesis by (simp add: str_def is_ws_def)
next
  case (JBool b)
  then show ?thesis by (simp add: str_def is_ws_def)
next
  case (JInt i)
  from match_integer_first [OF match_integer_int_repr [of i]] JInt show ?thesis
    by (auto simp: is_ws_def is_digit_def)
next
  case (JFloat f)
  show ?thesis
  proof (cases f)
    case (Finite x)
    with assms JFloat obtain tok r where "match_number (fr x) = Some (tok, r)"
      by (auto simp: float_ok_def split: option.splits)
    from match_number_first [OF this] JFloat Finite show ?thesis
      by (auto simp: is_ws_def is_digit_def floatstr_def)
  qed (simp_all add: JFloat floatstr_def str_def is_ws_def)
next
  case (JStr s)
  then show ?thesis by (simp add: encode_basestring_ascii_def is_ws_def)
next
  case (JList l)
  then show ?thesis by (simp add: str_def is_ws_def)
next
  case (JDict d)
  then show ?thesis by (simp add: str_def is_ws_def)
qed

lemma array_values_step:
  assumes "scan_once pf s = Some (v, r)" and "skip_ws r = c # r1"
  shows "array_values pf s =
           (if c = 0x5D then Some ([v], r1)
            else if c \<noteq> 0x2C then None
            else (case array_values pf (skip_ws r1) of
                    None \<Rightarrow> None
                  | Some (vs, r2) \<Rightarrow> Some (v # vs, r2)))"
  apply (subst array_values.simps)
  using assms by (simp del: scan_simps)

lemma object_pairs_step:
  assumes "scanstring s = Some (key, r0)" and "skip_ws r0 = 0x3A # r1"
    and "scan_once pf (skip_ws r1) = Some (val, r2)" and "skip_ws r2 = c # r3"
  shows "object_pairs pf s =
           (if c = 0x7D then Some ([(key, val)], r3)
            else if c \<noteq> 0x2C then None
            else (case skip_ws r3 of
                    [] \<Rightarrow> None
                  | q # r4 \<Rightarrow>
                      if q \<noteq> 0x22 then None
                      else (case object_pairs pf r4 of
                              None \<Rightarrow> None
                            | Some (pairs, r5) \<Rightarrow> Some ((key, val) # pairs, r5))))"
  apply (subst object_pairs.simps)
  using assms by (simp del: scan_simps scanstring.simps)

lemma scan_once_bracket: "scan_once pf (0x5B # t) = JSONArray pf t"
  by (subst scan_once.simps) (simp del: scan_simps)

lemma scan_once_brace: "scan_once pf (0x7B # t) = JSONObject pf t"
  by (subst scan_once.simps) (simp del: scan_simps)

lemma JSONArray_step:
  "skip_ws s = c # r \<Longrightarrow>
   JSONArray pf s =
     (if c = 0x5D then Some (JList [], r)
      else (case array_values pf (c # r) of None \<Rightarrow> None | Some (vs, r') \<Rightarrow> Some (JList vs, r')))"
  by (subst JSONArray.simps) (simp del: scan_simps)

lemma JSONObject_step:
  "skip_ws s = c # r \<Longrightarrow>
   JSONObject pf s =
     (if c = 0x7D then Some (JDict [], r)
      else if c = 0x22 then
        (case object_pairs pf r of None \<Rightarrow> None | Some (ps, r') \<Rightarrow> Some (JDict (dict ps), r'))
      else None)"
  by (subst JSONObject.simps) (simp del: scan_simps)

lemma array_values_join:
  assumes elems: "\<And>v R. v \<in> set (x # xs) \<Longrightarrow> delimited R \<Longrightarrow> scan_once pf (enc v @ R) = Some (v, R)"
    and first: "\<And>v. v \<in> set (x # xs) \<Longrightarrow> \<exists>c t. enc v = c # t \<and> \<not> is_ws c"
    and sep: "sep = 0x2C # pad" "\<forall>c \<in> set pad. is_ws c"
    and cl: "\<forall>c \<in> set nl. is_ws c" "delimited (nl @ 0x5D # rest)"
  shows "array_values pf (join sep (map enc (x # xs)) @ nl @ 0x5D # rest) = Some (x # xs, rest)"
  using elems first
proof (induction xs arbitrary: x)
  case Nil
  have a: "scan_once pf (enc x @ nl @ 0x5D # rest) = Some (x, nl @ 0x5D # rest)"
    using Nil.prems(1) [of x] cl(2) by (simp del: scan_simps scanstring.simps)
  have b: "skip_ws (nl @ 0x5D # rest) = 0x5D # rest"
    using cl(1) by (intro skip_ws_pad) (simp_all add: is_ws_def)
  from array_values_step [OF a b] show ?case by (simp del: scan_simps scanstring.simps)
next
  case (Cons y ys)
  let ?J = "join sep (map enc (y # ys)) @ nl @ 0x5D # rest"
  have j: "join sep (map enc (x # y # ys)) @ nl @ 0x5D # rest = enc x @ 0x2C # pad @ ?J"
    by (simp add: sep(1))
  have "delimited (0x2C # pad @ ?J)" by (simp add: delimited_def)
  then have a: "scan_once pf (enc x @ 0x2C # pad @ ?J) = Some (x, 0x2C # pad @ ?J)"
    using Cons.prems(1) [of x] by (simp del: scan_simps scanstring.simps)
  have b: "skip_ws (0x2C # pad @ ?J) = 0x2C # pad @ ?J"
    by (simp add: skip_ws_def is_ws_def)
  from Cons.prems(2) [of y] obtain c t where e: "enc y = c # t" "\<not> is_ws c" by auto
  have "\<exists>t'. ?J = c # t'"
    by (cases ys) (simp_all add: e)
  then obtain t' where J: "?J = c # t'" by blast
  have s: "skip_ws (pad @ ?J) = ?J"
    unfolding J using sep(2) e(2) by (rule skip_ws_pad)
  have ih: "array_values pf ?J = Some (y # ys, rest)"
    by (rule Cons.IH) (use Cons.prems in auto)
  from array_values_step [OF a b] s ih show ?case unfolding j by (simp del: scan_simps scanstring.simps)
qed

lemma object_pairs_join:
  assumes elems: "\<And>kv R. kv \<in> set (p # ps) \<Longrightarrow> delimited R \<Longrightarrow>
                    scan_once pf (enc (snd kv) @ R) = Some (snd kv, R)"
    and first: "\<And>kv. kv \<in> set (p # ps) \<Longrightarrow> \<exists>c t. enc (snd kv) = c # t \<and> \<not> is_ws c"
    and keys: "\<And>kv. kv \<in> set (p # ps) \<Longrightarrow> str_ok (fst kv)"
    and sep: "sep = 0x2C # pad" "\<forall>c \<in> set pad. is_ws c"
    and cl: "\<forall>c \<in> set nl. is_ws c" "delimited (nl @ 0x7D # rest)"
  shows "\<exists>T. join sep (map (\<lambda>kv. encode_basestring_ascii (fst kv) @ [0x3A, 0x20] @ enc (snd kv))
                          (p # ps)) @ nl @ 0x7D # rest = 0x22 # T \<and>
             object_pairs pf T = Some (p # ps, rest)"
  using elems first keys
proof (induction ps arbitrary: p)
  case Nil
  let ?K = "concat (map escape_char (fst p))"
  let ?T = "?K @ 0x22 # 0x3A # 0x20 # enc (snd p) @ nl @ 0x7D # rest"
  have k: "str_ok (fst p)" using Nil.prems(3) [of p] by (simp del: scan_simps scanstring.simps)
  have a: "scanstring ?T = Some (fst p, 0x3A # 0x20 # enc (snd p) @ nl @ 0x7D # rest)"
    using scanstring_escaped [OF k] by (simp del: scan_simps scanstring.simps)
  have b: "skip_ws (0x3A # 0x20 # enc (snd p) @ nl @ 0x7D # rest)
           = 0x3A # 0x20 # enc (snd p) @ nl @ 0x7D # rest"
    by (simp add: skip_ws_def is_ws_def)
  from Nil.prems(2) [of p] obtain c t where e: "enc (snd p) = c # t" "\<not> is_ws c" by auto
  have c: "skip_ws (0x20 # enc (snd p) @ nl @ 0x7D # rest) = enc (snd p) @ nl @ 0x7D # rest"
    using skip_ws_pad [of "[0x20]" c "t @ nl @ 0x7D # rest"] e by (simp add: is_ws_def)
  have d: "scan_once pf (skip_ws (0x20 # enc (snd p) @ nl @ 0x7D # rest))
           = Some (snd p, nl @ 0x7D # rest)"
    unfolding c using Nil.prems(1) [of p] cl(2) by (simp del: scan_simps scanstring.simps)
  have f: "skip_ws (nl @ 0x7D # rest) = 0x7D # rest"
    using cl(1) by (intro skip_ws_pad) (simp_all add: is_ws_def)
  from object_pairs_step [OF a b d f] have "object_pairs pf ?T = Some ([p], rest)" by (simp del: scan_simps scanstring.simps)
  then show ?case by (auto simp: encode_basestring_ascii_def)
next
  case (Cons q qs)
  let ?enckv = "\<lambda>kv. encode_basestring_ascii (fst kv) @ [0x3A, 0x20] @ enc (snd kv)"
  let ?J = "join sep (map ?enckv (q # qs)) @ nl @ 0x7D # rest"
  let ?K = "concat (map escape_char (fst p))"
  let ?R = "0x2C # pad @ ?J"
  let ?T = "?K @ 0x22 # 0x3A # 0x20 # enc (snd p) @ ?R"
  have "\<exists>T. ?J = 0x22 # T \<and> object_pairs pf T = Some (q # qs, rest)"
    by (rule Cons.IH) (use Cons.prems in auto)
  then obtain T' where J: "?J = 0x22 # T'" and ih: "object_pairs pf T' = Some (q # qs, rest)"
    by blast
  have k: "str_ok (fst p)" using Cons.prems(3) [of p] by (simp del: scan_simps scanstring.simps)
  have a: "scanstring ?T = Some (fst p, 0x3A # 0x20 # enc (snd p) @ ?R)"
    using scanstring_escaped [OF k] by (simp del: scan_simps scanstring.simps)
  have b: "skip_ws (0x3A # 0x20 # enc (snd p) @ ?R) = 0x3A # 0x20 # enc (snd p) @ ?R"
    by (simp add: skip_ws_def is_ws_def)
  from Cons.prems(2) [of p] obtain c t where e: "enc (snd p) = c # t" "\<not> is_ws c" by auto
  have c: "skip_ws (0x20 # enc (snd p) @ ?R) = enc (snd p) @ ?R"
    using skip_ws_pad [of "[0x20]" c "t @ ?R"] e by (simp add: is_ws_def)
  have "delimited ?R" by (simp add: delimited_def)
  then have d: "scan_once pf (skip_ws (0x20 # enc (snd p) @ ?R)) = Some (snd p, ?R)"
    unfolding c using Cons.prems(1) [of p] by (simp del: scan_simps scanstring.simps)
  have f: "skip_ws ?R = 0x2C # pad @ ?J"
    by (simp add: skip_ws_def is_ws_def)
  have g: "skip_ws (pad @ ?J) = 0x22 # T'"
    unfolding J using sep(2) by (intro skip_ws_pad) (simp_all add: is_ws_def)
  from object_pairs_step [OF a b d f] g ih
  have "object_pairs pf ?T = Some (p # q # qs, rest)" by (simp del: scan_simps scanstring.simps)
  moreover have "join sep (map ?enckv (p # q # qs)) @ nl @ 0x7D # rest = 0x22 # ?T"
    by (simp add: encode_basestring_ascii_def sep(1))
  ultimately show ?case by blast
qed

lemma scan_once_iterencode:
  "wellformed pf fr v \<Longrightarrow> delimited rest \<Longrightarrow>
   scan_once pf (iterencode fr indent level v @ rest) = Some (v, rest)"
proof (induction v arbitrary: level rest)
  case JNull
  then show ?case by (simp del: scan_simps scanstring.simps add: scan_once_literals)
next
  case (JBool b)
  then show ?case by (simp del: scan_simps scanstring.simps add: scan_once_literals)
next
  case (JInt i)
  then show ?case by (simp del: scan_simps scanstring.simps add: scan_once_int)
next
  case (JFloat f)
  then show ?case
    by (cases f) (simp_all del: scan_simps scanstring.simps add: floatstr_def scan_once_literals scan_once_float)
next
  case (JStr s)
  then show ?case by (simp del: scan_simps scanstring.simps add: scan_once_string)
next
  case (JList l)
  show ?case
  proof (cases l)
    case Nil
    have "skip_ws (0x5D # rest) = 0x5D # rest" by (simp add: skip_ws_def is_ws_def)
    from JSONArray_step [OF this, of pf] Nil show ?thesis
      by (simp del: scan_simps scanstring.simps add: str_def scan_once_bracket)
  next
    case (Cons x xs)
    let ?enc = "iterencode fr indent (level + 1)"
    let ?nl' = "newline_indent indent (level + 1)"
    let ?nl = "newline_indent indent level"
    let ?sep = "item_separator indent @ ?nl'"
    let ?J = "join ?sep (map ?enc (x # xs)) @ ?nl @ 0x5D # rest"
    from item_separator_shape [of indent] obtain pad0 where
      p0: "item_separator indent = 0x2C # pad0" "\<forall>c \<in> set pad0. is_ws c" by blast
    have sep: "?sep = 0x2C # (pad0 @ ?nl')" "\<forall>c \<in> set (pad0 @ ?nl'). is_ws c"
      using p0 ws_newline_indent [of indent "level + 1"] by auto
    have elems: "\<And>v R. v \<in> set (x # xs) \<Longrightarrow> delimited R \<Longrightarrow> scan_once pf (?enc v @ R) = Some (v, R)"
      using JList.IH JList.prems(1) Cons by auto
    have first: "\<And>v. v \<in> set (x # xs) \<Longrightarrow> \<exists>c t. ?enc v = c # t \<and> \<not> is_ws c"
      using first_char [of pf fr _ indent "level + 1"] JList.prems(1) Cons by fastforce
    have av: "array_values pf ?J = Some (x # xs, rest)"
      using elems first sep ws_newline_indent [of indent level]
        delimited_close [of "0x5D" indent level rest]
      by (intro array_values_join [where pad = "pad0 @ ?nl'"]) auto
    from first_char [of pf fr x indent "level + 1"] JList.prems(1) Cons
    obtain c t where e: "?enc x = c # t" "\<not> is_ws c" "c \<noteq> 0x5D" by auto
    have "\<exists>t'. ?J = c # t'" using e(1) by (cases xs) (simp_all del: scan_simps)
    then obtain t' where J: "?J = c # t'" by blast
    have sk: "skip_ws (?nl' @ ?J) = c # t'"
      unfolding J using ws_newline_indent e(2) by (rule skip_ws_pad)
    from JSONArray_step [OF sk, of pf] av e(3) J
    have "JSONArray pf (?nl' @ ?J) = Some (JList (x # xs), rest)" by (simp del: scan_simps scanstring.simps)
    then show ?thesis
      using Cons by (simp del: scan_simps scanstring.simps add: scan_once_bracket)
  qed
next
  case (JDict d)
  show ?case
  proof (cases d)
    case Nil
    have "skip_ws (0x7D # rest) = 0x7D # rest" by (simp add: skip_ws_def is_ws_def)
    from JSONObject_step [OF this, of pf] Nil show ?thesis
      by (simp del: scan_simps scanstring.simps add: str_def scan_once_brace)
  next
    case (Cons p ps)
    let ?enc = "iterencode fr indent (level + 1)"
    let ?enckv = "\<lambda>kv. encode_basestring_ascii (fst kv) @ [0x3A, 0x20] @ ?enc (snd kv)"
    let ?nl' = "newline_indent indent (level + 1)"
    let ?nl = "newline_indent indent level"
    let ?sep = "item_separator indent @ ?nl'"
    let ?J = "join ?sep (map ?enckv (p # ps)) @ ?nl @ 0x7D # rest"
    from item_separator_shape [of indent] obtain pad0 where
      p0: "item_separator indent = 0x2C # pad0" "\<forall>c \<in> set pad0. is_ws c" by blast
    have sep: "?sep = 0x2C # (pad0 @ ?nl')" "\<forall>c \<in> set (pad0 @ ?nl'). is_ws c"
      using p0 ws_newline_indent [of indent "level + 1"] by auto
    have wfd: "\<And>kv. kv \<in> set (p # ps) \<Longrightarrow> str_ok (fst kv) \<and> wellformed pf fr (snd kv)"
      using JDict.prems(1) Cons by auto
    have elems: "\<And>kv R. kv \<in> set (p # ps) \<Longrightarrow> delimited R \<Longrightarrow>
                    scan_once pf (?enc (snd kv) @ R) = Some (snd kv, R)"
    proof -
      fix kv R assume kv: "kv \<in> set (p # ps)" and R: "delimited R"
      have "snd kv \<in> Basic_BNFs.snds kv" by (rule snds.intros)
      with kv Cons wfd [OF kv] R show "scan_once pf (?enc (snd kv) @ R) = Some (snd kv, R)"
        by (intro JDict.IH [of kv]) auto
    qed
    have first: "\<And>kv. kv \<in> set (p # ps) \<Longrightarrow> \<exists>c t. ?enc (snd kv) = c # t \<and> \<not> is_ws c"
      using first_char [of pf fr _ indent "level + 1"] wfd by fastforce
    have keys: "\<And>kv. kv \<in> set (p # ps) \<Longrightarrow> str_ok (fst kv)" using wfd by blast
    have "\<exists>T. ?J = 0x22 # T \<and> object_pairs pf T = Some (p # ps, rest)"
      using elems first keys sep ws_newline_indent [of indent level]
        delimited_close [of "0x7D" indent level rest]
      by (intro object_pairs_join [where pad = "pad0 @ ?nl'"]) auto
    then obtain T where J: "?J = 0x22 # T" and op: "object_pairs pf T = Some (p # ps, rest)"
      by blast
    have sk: "skip_ws (?nl' @ ?J) = 0x22 # T"
      unfolding J using ws_newline_indent by (rule skip_ws_pad) (simp add: is_ws_def)
    have dd: "dict (p # ps) = p # ps"
      using JDict.prems(1) Cons by (intro dict_distinct) simp
    from JSONObject_step [OF sk, of pf] op dd
    have "JSONObject pf (?nl' @ ?J) = Some (JDict (p # ps), rest)" by (simp del: scan_simps scanstring.simps)
    then show ?thesis
      using Cons by (simp del: scan_simps scanstring.simps add: scan_once_brace)
  qed
qed

lemma json_loads_json_dumps:
  assumes "wellformed pf fr v"
  shows "json_loads pf (json_dumps fr indent v) = Some v"
proof -
  from first_char [OF assms, of indent 0] obtain c t where
    e: "iterencode fr indent 0 v = c # t" "\<not> is_ws c" by auto
  have bom: "take 1 (iterencode fr indent 0 v) \<noteq> [0xFEFF]"
  proof
    assume "take 1 (iterencode fr indent 0 v) = [0xFEFF]"
    with e have c: "c = 0xFEFF" by (simp del: scan_simps scanstring.simps)
    have "json_loads pf [] = None" by (simp add: json_loads_def skip_ws_def)
    from scan_once_iterencode [OF assms, of "[]" indent 0] e c
    have "scan_once pf (0xFEFF # t) = Some (v, [])" by (simp add: delimited_def)
    then show False
      by (subst (asm) scan_once.simps)
         (simp del: scan_simps scanstring.simps add: str_def match_number_def match_integer_def)
  qed
  have sk: "skip_ws (iterencode fr indent 0 v) = iterencode fr indent 0 v"
    using e by (simp add: skip_ws_def)
  from scan_once_iterencode [OF assms, of "[]" indent 0]
  have "scan_once pf (iterencode fr indent 0 v) = Some (v, [])" by (simp add: delimited_def)
  with bom sk show ?thesis
    by (simp del: scan_simps scanstring.simps add: json_loads_def json_dumps_def skip_ws_def)
qed

lemma ascii_simps:
  "ascii []" "ascii (c # s) = (c < 0x80 \<and> ascii s)" "ascii (s @ t) = (ascii s \<and> ascii t)"
  by (auto simp: ascii_def)

lemma ascii_concat: "(\<And>x. x \<in> set xs \<Longrightarrow> ascii x) \<Longrightarrow> ascii (concat xs)"
  by (auto simp: ascii_def)

lemma ascii_join: "ascii sep \<Longrightarrow> (\<And>x. x \<in> set xs \<Longrightarrow> ascii x) \<Longrightarrow> ascii (join sep xs)"
  by (induction sep xs rule: join.induct) (auto simp: ascii_simps)

lemma hex_digit_ascii: "d < 16 \<Longrightarrow> hex_digit d < 0x80"
  by (simp add: hex_digit_def)

lemma ascii_hex4: "ascii (hex4 n)"
  by (simp add: hex4_def ascii_simps hex_digit_ascii)

lemma ascii_escape_char: "ascii (escape_char c)"
  by (simp add: escape_char_def ascii_simps ascii_hex4 Let_def)

lemma ascii_encode_basestring: "ascii (encode_basestring_ascii s)"
proof -
  have "ascii (concat (map escape_char s))"
    by (rule ascii_concat) (auto simp: ascii_escape_char)
  then show ?thesis by (simp add: encode_basestring_ascii_def ascii_simps)
qed

lemma ascii_digits: "\<forall>c \<in> set r. is_digit c \<Longrightarrow> ascii r"
  by (auto simp: ascii_def is_digit_def)

lemma ascii_takeWhile_digit: "ascii (takeWhile is_digit s)"
  by (rule ascii_digits) (auto dest: set_takeWhileD)

lemma ascii_nat_repr: "ascii (nat_repr n)"
proof (cases "n = 0")
  case True
  with nat_repr_shape [of n] show ?thesis by (simp add: ascii_simps)
next
  case False
  with nat_repr_shape [of n] obtain d r where "nat_repr n = d # r" "d \<le> 0x39"
    "\<forall>c \<in> set r. is_digit c" by auto
  then show ?thesis using ascii_digits [of r] by (simp add: ascii_simps)
qed

lemma ascii_int_repr: "ascii (int_repr i)"
  by (simp add: int_repr_def ascii_simps ascii_nat_repr)

lemma match_integer_ascii: "match_integer s = Some (i, r) \<Longrightarrow> s = i @ r \<and> ascii i"
  using ascii_takeWhile_digit
  by (auto simp: match_integer_def Let_def ascii_simps is_digit_def split: list.splits if_splits)

lemma match_frac_ascii: "match_frac s = (f, r) \<Longrightarrow> s = f @ r \<and> ascii f"
  using ascii_takeWhile_digit
  by (auto simp: match_frac_def ascii_simps is_digit_def split: list.splits if_splits)

lemma match_exp_ascii: "match_exp s = (e, r) \<Longrightarrow> s = e @ r \<and> ascii e"
  using ascii_takeWhile_digit
  by (auto simp: match_exp_def Let_def ascii_simps is_digit_def split: list.splits if_splits)

lemma match_number_ascii: "match_number s = Some (tok, []) \<Longrightarrow> ascii s"
proof -
  assume "match_number s = Some (tok, [])"
  then obtain i r0 f r1 e where
    a: "match_integer s = Some (i, r0)" and b: "match_frac r0 = (f, r1)"
    and c: "match_exp r1 = (e, [])"
    by (auto simp: match_number_def split: option.splits prod.splits)
  from match_integer_ascii [OF a] match_frac_ascii [OF b] match_exp_ascii [OF c]
  show ?thesis by (simp add: ascii_simps)
qed

lemma ascii_newline_indent: "ascii (newline_indent indent level)"
  by (auto simp: newline_indent_def ascii_def split: option.splits)

lemma ascii_item_separator: "ascii (item_separator indent)"
  by (auto simp: item_separator_def ascii_def split: option.splits)

lemma ascii_iterencode:
  "wellformed pf fr v \<Longrightarrow> ascii (iterencode fr indent level v)"
proof (induction v arbitrary: level)
  case JNull
  then show ?case by (simp add: str_def ascii_simps)
next
  case (JBool b)
  then show ?case by (simp add: str_def ascii_simps)
next
  case (JInt i)
  then show ?case by (simp add: ascii_int_repr)
next
  case (JFloat f)
  show ?case
  proof (cases f)
    case (Finite x)
    with JFloat obtain tok where "match_number (fr x) = Some (tok, [])"
      by (auto simp: float_ok_def split: option.splits)
    from match_number_ascii [OF this] Finite show ?thesis by (simp add: floatstr_def)
  qed (simp_all add: floatstr_def str_def ascii_simps)
next
  case (JStr s)
  then show ?case by (simp add: ascii_encode_basestring)
next
  case (JList l)
  have "\<And>x. x \<in> set (map (iterencode fr indent (level + 1)) l) \<Longrightarrow> ascii x"
    using JList by auto
  then have "ascii (join (item_separator indent @ newline_indent indent (level + 1))
                      (map (iterencode fr indent (level + 1)) l))"
    by (intro ascii_join) (simp_all add: ascii_simps ascii_item_separator ascii_newline_indent)
  then show ?case
    by (simp add: str_def ascii_simps ascii_newline_indent)
next
  case (JDict d)
  have "\<And>x. x \<in> set (map (\<lambda>kv. encode_basestring_ascii (fst kv) @ [0x3A, 0x20]
                             @ iterencode fr indent (level + 1) (snd kv)) d) \<Longrightarrow> ascii x"
  proof -
    fix x assume "x \<in> set (map (\<lambda>kv. encode_basestring_ascii (fst kv) @ [0x3A, 0x20]
                             @ iterencode fr indent (level + 1) (snd kv)) d)"
    then obtain kv where kv: "kv \<in> set d"
      and x: "x = encode_basestring_ascii (fst kv) @ [0x3A, 0x20]
                    @ iterencode fr indent (level + 1) (snd kv)" by auto
    have "snd kv \<in> Basic_BNFs.snds kv" by (rule snds.intros)
    with kv JDict.prems have "ascii (iterencode fr indent (level + 1) (snd kv))"
      by (intro JDict.IH [of kv]) auto
    then show "ascii x" unfolding x by (simp add: ascii_simps ascii_encode_basestring)
  qed
  then have "ascii (join (item_separator indent @ newline_indent indent (level + 1))
                      (map (\<lambda>kv. encode_basestring_ascii (fst kv) @ [0x3A, 0x20]
                             @ iterencode fr indent (level + 1) (snd kv)) d))"
    by (intro ascii_join) (simp_all add: ascii_simps ascii_item_separator ascii_newline_indent)
  then show ?case
    by (simp add: str_def ascii_simps ascii_newline_indent)
qed

lemma str_encode_ascii: "ascii s \<Longrightarrow> str_encode s = Some (map char_of s)"
  by (induction s) (simp_all add: ascii_simps encode_cp_def)

lemma decode_utf8_ascii: "ascii s \<Longrightarrow> decode_utf8 s = Some s"
  by (induction s) (simp_all add: ascii_simps with_cp_def)

lemma bytes_decode_ascii: "ascii s \<Longrightarrow> bytes_decode (map char_of s) = Some s"
proof -
  assume a: "ascii s"
  then have "map (\<lambda>c. of_char (char_of c :: char)) s = s"
    by (induction s) (simp_all add: ascii_simps)
  with a show ?thesis by (simp add: bytes_decode_def decode_utf8_ascii comp_def)
qed

text \<open>
  C8: a record whose stored payload is the serialisation of a well-formed document is
  exported as the pretty-printed text of that document; the text is pure ASCII, so its
  UTF-8 encoding succeeds; uploading the resulting file decodes and parses it to the
  same document, the upload is accepted, and the row it adds stores the same payload
  text as the original record. Equality is that of JSON documents: \<open>NaN\<close> is one value
  here, although Python's \<open>==\<close> on floats does not hold between two \<open>nan\<close>.
\<close>

theorem C8_round_trip:
  assumes "wellformed parse_float float_repr payload"
    and "schema_col record = json_dumps float_repr None payload"
  shows "\<exists>text bytes.
           export_record parse_float float_repr record = Some text \<and>
           text = json_dumps float_repr (Some 2) payload \<and>
           str_encode text = Some bytes \<and>
           file_schema parse_float \<lparr>name = n, getvalue = bytes\<rparr> = Some payload \<and>
           (case upload_schema_files parse_float float_repr uuid4
                   [\<lparr>name = n, getvalue = bytes\<rparr>] w of
              (successful, failed, w') \<Rightarrow>
                map upload_schema successful = [payload] \<and> failed = [] \<and>
                map schema_col (db w') = map schema_col (db w) @ [schema_col record])"
proof -
  let ?text = "json_dumps float_repr (Some 2) payload"
  let ?bytes = "map char_of ?text :: string"
  let ?f = "\<lparr>name = n, getvalue = ?bytes\<rparr>"
  have ex: "export_record parse_float float_repr record = Some ?text"
    using json_loads_json_dumps [OF assms(1), of None] assms(2)
    by (simp add: export_record_def)
  have asc: "ascii ?text"
    using ascii_iterencode [OF assms(1)] by (simp add: json_dumps_def)
  have enc: "str_encode ?text = Some ?bytes" using asc by (rule str_encode_ascii)
  have fs: "file_schema parse_float ?f = Some payload"
    using bytes_decode_ascii [OF asc] json_loads_json_dumps [OF assms(1), of "Some 2"]
    by (simp add: file_schema_def)
  obtain successful failed w1 where
    loop: "upload_loop parse_float float_repr uuid4 [?f] [] [] w = (successful, failed, w1)"
    by (cases "upload_loop parse_float float_repr uuid4 [?f] [] [] w") auto
  from upload_loop_spec [OF loop] fs obtain rows where
    s: "map upload_schema successful = [payload]" and f: "map fst failed = []"
    and d: "db w1 = db w @ rows"
    and r: "map schema_col rows = [json_dumps float_repr None payload]"
    by (auto simp: accepted_def rejected_def)
  from s have ne: "successful \<noteq> []" by auto
  from f have fe: "failed = []" by simp
  have up: "upload_schema_files parse_float float_repr uuid4 [?f] w =
        (successful, [], emit [St_success (Files_uploaded (length successful))] w1)"
    using loop ne fe by (simp add: upload_schema_files_def Let_def)
  have "map schema_col (db (emit [St_success (Files_uploaded (length successful))] w1))
        = map schema_col (db w) @ [schema_col record]"
    using d r assms(2) by (simp add: emit_def)
  with up s have fin: "(case upload_schema_files parse_float float_repr uuid4 [?f] w of
              (successful, failed, w') \<Rightarrow>
                map upload_schema successful = [payload] \<and> failed = [] \<and>
                map schema_col (db w') = map schema_col (db w) @ [schema_col record])"
    by simp
  show ?thesis
    by (rule exI [of _ ?text], rule exI [of _ ?bytes], intro conjI)
       (rule ex, rule refl, rule enc, rule fs, rule fin)
qed

theorem C8_round_trip_witness:
  "\<exists>text bytes.
     export_record (\<lambda>s. Finite s) (\<lambda>x. x)
       \<lparr>id_col = [1], prompt_col = str ''a user'',
        schema_col = json_dumps (\<lambda>x. x) None
          (JDict [(str ''title'', JStr (str ''User'')),
                  (str ''tags'', JList [JInt (- 3), JFloat (Finite (str ''1.5'')), JBool True, JNull])]),
        created_at_col = 0\<rparr> = Some text \<and>
     text = json_dumps (\<lambda>x. x) (Some 2)
          (JDict [(str ''title'', JStr (str ''User'')),
                  (str ''tags'', JList [JInt (- 3), JFloat (Finite (str ''1.5'')), JBool True, JNull])]) \<and>
     str_encode text = Some bytes \<and>
     file_schema (\<lambda>s. Finite s) \<lparr>name = str ''user.json'', getvalue = bytes\<rparr> =
       Some (JDict [(str ''title'', JStr (str ''User'')),
                  (str ''tags'', JList [JInt (- 3), JFloat (Finite (str ''1.5'')), JBool True, JNull])]) \<and>
     (case upload_schema_files (\<lambda>s. Finite s) (\<lambda>x. x) (\<lambda>n. [n])
             [\<lparr>name = str ''user.json'', getvalue = bytes\<rparr>]
             \<lparr>clock = 7, trace = [], db = [], uuid_count = 0\<rparr> of
        (successful, failed, w') \<Rightarrow>
          map upload_schema successful =
            [JDict [(str ''title'', JStr (str ''User'')),
                  (str ''tags'', JList [JInt (- 3), JFloat (Finite (str ''1.5'')), JBool True, JNull])]] \<and>
          failed = [] \<and>
          map schema_col (db w') =
            map schema_col (db \<lparr>clock = 7, trace = [], db = [], uuid_count = 0\<rparr>) @
            [schema_col
              \<lparr>id_col = [1], prompt_col = str ''a user'',
               schema_col = json_dumps (\<lambda>x. x) None
                 (JDict [(str ''title'', JStr (str ''User'')),
                  (str ''tags'', JList [JInt (- 3), JFloat (Finite (str ''1.5'')), JBool True, JNull])]),
               created_at_col = 0\<rparr>])"
proof -
  have wf: "wellformed (\<lambda>s. Finite s) (\<lambda>x. x)
      (JDict [(str ''title'', JStr (str ''User'')),
              (str ''tags'', JList [JInt (- 3), JFloat (Finite (str ''1.5'')), JBool True, JNull])])"
    by (simp add: str_def float_ok_def match_number_def match_integer_def match_frac_def
        match_exp_def is_digit_def high_surrogate_def low_surrogate_def)
  show ?thesis
    by (rule C8_round_trip [OF wf]) simp
qed

end
